theory Spec2Isabelle
  imports Main "HOL-Library.Multiset" "HOL-Library.Sublist" "HOL-Library.Word"
begin

section \<open>Python values used by the codec\<close>

text \<open>
  The exceptions the modelled code can raise. Every function that can raise returns
  \<open>py_error + 'a\<close>, with \<open>Inl\<close> for the exception.
\<close>

datatype py_error = IndexError | KeyError | TypeError | AttributeError | ValueError

text \<open>
  A Python \<open>dict\<close> keeps its keys in insertion order, and the order is visible (iteration
  in \<open>Counter(text).items()\<close>, in \<open>codes.items()\<close> and in \<open>json.dump\<close>), so a dict is
  an association list. \<open>d[k] = v\<close> overwrites the value of a key that is present, in
  place, and appends a new key at the end. Lookup is \<open>map_of\<close>.
\<close>

type_synonym ('k, 'v) dict = "('k \<times> 'v) list"

fun dict_set :: "('k, 'v) dict \<Rightarrow> 'k \<Rightarrow> 'v \<Rightarrow> ('k, 'v) dict" where
  "dict_set [] k v = [(k, v)]"
| "dict_set ((k', v') # d) k v =
     (if k' = k then (k, v) # d else (k', v') # dict_set d k v)"

text \<open>
  A Python \<open>str\<close> is a sequence of code points. The type of the code points of a text
  is left open (\<open>'c\<close>; the examples below take \<open>char\<close>), so a text is a \<open>'c list\<close> and
  may hold any number of distinct symbols. Python has no character type: iterating over
  a \<open>str\<close> yields strings of length one. A symbol is therefore a \<open>'c list\<close>, and
  \<open>chars_of\<close> is the iteration over a text. The strings of the digits 0 and 1 that the
  codec builds and scans are of type \<open>string\<close>.
\<close>

definition chars_of :: "'c list \<Rightarrow> 'c list list" where
  "chars_of text = map (\<lambda>c. [c]) text"

text \<open>\<open>d.get(k, default)\<close>.\<close>

definition dict_get :: "('k, 'v) dict \<Rightarrow> 'k \<Rightarrow> 'v \<Rightarrow> 'v" where
  "dict_get d k dflt = (case map_of d k of None \<Rightarrow> dflt | Some v \<Rightarrow> v)"

text \<open>
  \<open>collections.Counter(iterable)\<close>: for each element in order,
  \<open>self[elem] = self.get(elem, 0) + 1\<close>.
\<close>

definition count_elem :: "('k, nat) dict \<Rightarrow> 'k \<Rightarrow> ('k, nat) dict" where
  "count_elem d elem = dict_set d elem (dict_get d elem 0 + 1)"

definition Counter :: "'k list \<Rightarrow> ('k, nat) dict" where
  "Counter elems = foldl count_elem [] elems"

section \<open>The Node class\<close>

text \<open>
  \<open>class Node\<close>: the fields \<open>char\<close> (a symbol or \<open>None\<close>), \<open>freq\<close>, \<open>left\<close> and
  \<open>right\<close> (a Node or \<open>None\<close>). \<open>__lt__\<close> compares the frequencies only.
\<close>

datatype 'c node =
  Node (char: "'c list option") (freq: nat) (left: "'c node option") (right: "'c node option")

definition node_lt :: "'c node \<Rightarrow> 'c node \<Rightarrow> bool" where
  "node_lt a b = (freq a < freq b)"

section \<open>heapq\<close>

text \<open>
  The standard library's \<open>heapq\<close> on a list, with the mutated list returned.
  \<open>_siftdown(heap, startpos, pos)\<close>: the \<open>while\<close> loop moves parents down while
  \<open>newitem < parent\<close>; the final store \<open>heap[pos] = newitem\<close> is in \<open>siftdown\<close>.
\<close>

function siftdown_loop :: "'c node list \<Rightarrow> nat \<Rightarrow> 'c node \<Rightarrow> nat \<Rightarrow> 'c node list \<times> nat" where
  "siftdown_loop heap startpos newitem pos =
     (if pos > startpos then
        (let parentpos = (pos - 1) div 2;
             parent = heap ! parentpos
         in if node_lt newitem parent
            then siftdown_loop (heap[pos := parent]) startpos newitem parentpos
            else (heap, pos))
      else (heap, pos))"
  by pat_completeness auto
termination
  by (relation "measure (\<lambda>(heap, startpos, newitem, pos). pos)") auto

declare siftdown_loop.simps [simp del]

definition siftdown :: "'c node list \<Rightarrow> nat \<Rightarrow> nat \<Rightarrow> 'c node list" where
  "siftdown heap startpos pos =
     (let newitem = heap ! pos;
          (heap', pos') = siftdown_loop heap startpos newitem pos
      in heap'[pos' := newitem])"

text \<open>
  \<open>_siftup(heap, pos)\<close>: the \<open>while childpos < endpos\<close> loop moves the smaller child up
  until a leaf is reached; then \<open>newitem\<close> is stored there and sifted down to its place.
\<close>

function siftup_loop :: "'c node list \<Rightarrow> nat \<Rightarrow> nat \<Rightarrow> nat \<Rightarrow> 'c node list \<times> nat" where
  "siftup_loop heap endpos pos childpos =
     (if childpos < endpos then
        (let rightpos = childpos + 1;
             childpos' = (if rightpos < endpos \<and> \<not> node_lt (heap ! childpos) (heap ! rightpos)
                          then rightpos else childpos)
         in siftup_loop (heap[pos := heap ! childpos']) endpos childpos' (2 * childpos' + 1))
      else (heap, pos))"
  by pat_completeness auto
termination
  by (relation "measure (\<lambda>(heap, endpos, pos, childpos). endpos - childpos)") auto

declare siftup_loop.simps [simp del]

definition siftup :: "'c node list \<Rightarrow> nat \<Rightarrow> 'c node list" where
  "siftup heap pos =
     (let endpos = length heap;
          startpos = pos;
          newitem = heap ! pos;
          (heap', pos') = siftup_loop heap endpos pos (2 * pos + 1)
      in siftdown (heap'[pos' := newitem]) startpos pos')"

text \<open>\<open>heapify(x)\<close>: \<open>for i in reversed(range(n//2)): _siftup(x, i)\<close>.\<close>

definition heapify :: "'c node list \<Rightarrow> 'c node list" where
  "heapify x = foldl siftup x (rev [0 ..< length x div 2])"

text \<open>\<open>heappush(heap, item)\<close>: append, then \<open>_siftdown(heap, 0, len(heap)-1)\<close>.\<close>

definition heappush :: "'c node list \<Rightarrow> 'c node \<Rightarrow> 'c node list" where
  "heappush heap item = (let heap' = heap @ [item] in siftdown heap' 0 (length heap' - 1))"

text \<open>
  \<open>heappop(heap)\<close>: \<open>heap.pop()\<close> raises IndexError on the empty list; otherwise the
  last element replaces the root and is sifted up, and the old root is returned.
\<close>

definition heappop :: "'c node list \<Rightarrow> py_error + ('c node \<times> 'c node list)" where
  "heappop heap =
     (if heap = [] then Inl IndexError
      else (let lastelt = last heap;
                heap' = butlast heap
            in if heap' \<noteq> []
               then (let returnitem = heap' ! 0
                     in Inr (returnitem, siftup (heap'[0 := lastelt]) 0))
               else Inr (lastelt, heap')))"

text \<open>The heap operations keep the length of the list; the loop below stops by this.\<close>

lemma length_siftdown_loop [simp]:
  "length (fst (siftdown_loop heap startpos newitem pos)) = length heap"
proof (induction heap startpos newitem pos rule: siftdown_loop.induct)
  case (1 heap startpos newitem pos)
  then show ?case
    by (subst siftdown_loop.simps) (simp add: Let_def)
qed

lemma length_siftdown_loop_eq:
  "siftdown_loop heap startpos newitem pos = (heap', pos') \<Longrightarrow> length heap' = length heap"
  using length_siftdown_loop [of heap startpos newitem pos] by simp

lemma length_siftdown [simp]: "length (siftdown heap startpos pos) = length heap"
  by (auto simp: siftdown_def Let_def split: prod.splits dest: length_siftdown_loop_eq)

lemma length_siftup_loop [simp]:
  "length (fst (siftup_loop heap endpos pos childpos)) = length heap"
proof (induction heap endpos pos childpos rule: siftup_loop.induct)
  case (1 heap endpos pos childpos)
  then show ?case
    by (subst siftup_loop.simps) (simp add: Let_def)
qed

lemma length_siftup_loop_eq:
  "siftup_loop heap endpos pos childpos = (heap', pos') \<Longrightarrow> length heap' = length heap"
  using length_siftup_loop [of heap endpos pos childpos] by simp

lemma length_siftup [simp]: "length (siftup heap pos) = length heap"
  by (auto simp: siftup_def Let_def split: prod.splits dest: length_siftup_loop_eq)

lemma length_heappush [simp]: "length (heappush heap item) = Suc (length heap)"
  by (simp add: heappush_def Let_def)

lemma length_heappop:
  "heappop heap = Inr (item, heap') \<Longrightarrow> Suc (length heap') = length heap"
  by (cases heap rule: rev_cases) (auto simp: heappop_def Let_def split: if_splits)

section \<open>Building the tree\<close>

text \<open>
  The \<open>while len(heap) > 1\<close> loop of \<open>build_huffman_tree\<close>: pop two nodes, merge them
  (\<open>left\<close> the first popped, \<open>right\<close> the second), push the merged node.
\<close>

function huffman_loop :: "'c node list \<Rightarrow> py_error + 'c node list" where
  "huffman_loop heap =
     (if length heap > 1 then
        (case heappop heap of
           Inl e \<Rightarrow> Inl e
         | Inr (node1, heap1) \<Rightarrow>
             (case heappop heap1 of
                Inl e \<Rightarrow> Inl e
              | Inr (node2, heap2) \<Rightarrow>
                  (let merged = Node None (freq node1 + freq node2) (Some node1) (Some node2)
                   in huffman_loop (heappush heap2 merged))))
      else Inr heap)"
  by pat_completeness auto
termination
proof (relation "measure length")
  show "wf (measure length)" by simp
next
  fix heap :: "'c node list" and x2 node1 heap1 x2a node2 heap2 merged
  assume "heappop heap = Inr x2" "(node1, heap1) = x2"
    and "heappop heap1 = Inr x2a" "(node2, heap2) = x2a"
  then have "Suc (length heap1) = length heap" "Suc (length heap2) = length heap1"
    by (auto dest: length_heappop)
  then show "(heappush heap2 merged, heap) \<in> measure length"
    by simp
qed

declare huffman_loop.simps [simp del]

text \<open>
  \<open>build_huffman_tree(text)\<close>: one leaf per entry of the Counter, in its order;
  \<open>heapify\<close>; the loop; \<open>heap[0] if heap else None\<close>.
\<close>

definition build_huffman_tree :: "'c list \<Rightarrow> py_error + 'c node option" where
  "build_huffman_tree text =
     (let freq_map = Counter (chars_of text);
          heap = map (\<lambda>(char, freq). Node (Some char) freq None None) freq_map;
          heap = heapify heap
      in case huffman_loop heap of
           Inl e \<Rightarrow> Inl e
         | Inr heap \<Rightarrow> Inr (if heap \<noteq> [] then Some (heap ! 0) else None))"

section \<open>The code table\<close>

text \<open>
  \<open>build_codes(node, current_code="", codes={})\<close> stores into \<open>codes\<close> and returns it,
  but returns \<open>None\<close> (a bare \<open>return\<close>) when \<open>node\<close> is \<open>None\<close>. The model returns the
  pair of the returned value and the dict after the call. The default \<open>codes={}\<close> is one
  dict object, created when the \<open>def\<close> is executed and shared by every call that does
  not pass \<open>codes\<close>: it is state of the process, passed explicitly here.
\<close>

function build_codes ::
  "'c node option \<Rightarrow> string \<Rightarrow> ('c list, string) dict \<Rightarrow>
     ('c list, string) dict option \<times> ('c list, string) dict"
where
  "build_codes None current_code codes = (None, codes)"
| "build_codes (Some (Node ch f l r)) current_code codes =
     (let codes1 = (case ch of None \<Rightarrow> codes | Some c \<Rightarrow> dict_set codes c current_code);
          codes2 = snd (build_codes l (current_code @ ''0'') codes1);
          codes3 = snd (build_codes r (current_code @ ''1'') codes2)
      in (Some codes3, codes3))"
  by pat_completeness auto
termination
  by (relation "measure (\<lambda>(n, current_code, codes). size_option size n)") auto

section \<open>Compression\<close>

text \<open>
  \<open>''.join(codes[char] for char in text)\<close>: \<open>codes[char]\<close> raises TypeError when
  \<open>codes\<close> is \<open>None\<close> and KeyError when the key is missing; neither is evaluated for an
  empty text.
\<close>

fun encode_text :: "('c list, string) dict option \<Rightarrow> 'c list list \<Rightarrow> py_error + string" where
  "encode_text codes [] = Inr []"
| "encode_text codes (ch # rest) =
     (case codes of
        None \<Rightarrow> Inl TypeError
      | Some d \<Rightarrow>
          (case map_of d ch of
             None \<Rightarrow> Inl KeyError
           | Some code \<Rightarrow>
               (case encode_text codes rest of
                  Inl e \<Rightarrow> Inl e
                | Inr s \<Rightarrow> Inr (code @ s))))"

text \<open>
  \<open>int(byte, 2)\<close> on a non-empty string of the digits 0 and 1: its value, most
  significant digit first. Every string the packer passes is of this kind (code bits and
  padding); on any other string the model raises ValueError, as Python does on an empty
  string or a foreign digit.
\<close>

definition is_bit :: "char \<Rightarrow> bool" where
  "is_bit c = (c = CHR ''0'' \<or> c = CHR ''1'')"

definition bits_value :: "string \<Rightarrow> nat" where
  "bits_value s = foldl (\<lambda>acc c. 2 * acc + (if c = CHR ''1'' then 1 else 0)) 0 s"

definition int_base2 :: "string \<Rightarrow> py_error + nat" where
  "int_base2 s = (if s \<noteq> [] \<and> list_all is_bit s then Inr (bits_value s) else Inl ValueError)"

text \<open>A byte is an integer in \<open>range(256)\<close>; \<open>bytearray.append\<close> raises ValueError outside it.\<close>

type_synonym byte = "8 word"

definition bytearray_append :: "byte list \<Rightarrow> nat \<Rightarrow> py_error + byte list" where
  "bytearray_append byte_array v =
     (if v < 256 then Inr (byte_array @ [of_nat v]) else Inl ValueError)"

text \<open>\<open>for i in range(0, len(padded_encoded), 8): byte_array.append(int(padded_encoded[i:i+8], 2))\<close>\<close>

function pack_loop :: "string \<Rightarrow> nat \<Rightarrow> byte list \<Rightarrow> py_error + byte list" where
  "pack_loop padded_encoded i byte_array =
     (if i < length padded_encoded then
        (case int_base2 (take 8 (drop i padded_encoded)) of
           Inl e \<Rightarrow> Inl e
         | Inr v \<Rightarrow>
             (case bytearray_append byte_array v of
                Inl e \<Rightarrow> Inl e
              | Inr byte_array' \<Rightarrow> pack_loop padded_encoded (i + 8) byte_array'))
      else Inr byte_array)"
  by pat_completeness auto
termination
  by (relation "measure (\<lambda>(padded_encoded, i, byte_array). length padded_encoded - i)") auto

declare pack_loop.simps [simp del]

text \<open>
  \<open>compress_file\<close>, with the contents of the three files in place of their paths: the
  text read from \<open>input_path\<close> is the argument; the result holds the bytes written to
  \<open>output_path\<close> and the value given to \<open>json.dump\<close> for \<open>codes_path\<close>. The first
  argument is the dict behind the default \<open>codes={}\<close> of \<open>build_codes\<close> as the call
  finds it, and the second component of the result is that dict as the call leaves it.
\<close>

definition compress_file ::
  "('c list, string) dict \<Rightarrow> 'c list \<Rightarrow>
     (py_error + (byte list \<times> ('c list, string) dict option)) \<times> ('c list, string) dict"
where
  "compress_file default_codes text =
     (case build_huffman_tree text of
        Inl e \<Rightarrow> (Inl e, default_codes)
      | Inr root \<Rightarrow>
          (let (codes, default_codes') = build_codes root [] default_codes
           in case encode_text codes (chars_of text) of
                Inl e \<Rightarrow> (Inl e, default_codes')
              | Inr encoded_text \<Rightarrow>
                  (let padded_encoded =
                         encoded_text @ replicate ((8 - length encoded_text mod 8) mod 8) (CHR ''0'')
                   in case pack_loop padded_encoded 0 [] of
                        Inl e \<Rightarrow> (Inl e, default_codes')
                      | Inr byte_array \<Rightarrow> (Inr (byte_array, codes), default_codes'))))"

section \<open>Decompression\<close>

text \<open>\<open>f"{byte:08b}"\<close>: the eight binary digits of a byte, most significant first.\<close>

definition format_08b :: "byte \<Rightarrow> string" where
  "format_08b b = map (\<lambda>i. if bit b i then CHR ''1'' else CHR ''0'') (rev [0 ..< 8])"

definition bit_string_of :: "byte list \<Rightarrow> string" where
  "bit_string_of byte_data = concat (map format_08b byte_data)"

text \<open>\<open>{v: k for k, v in codes.items()}\<close>: a later entry with the same code overwrites.\<close>

definition reverse_codes_of :: "('c list, string) dict \<Rightarrow> (string, 'c list) dict" where
  "reverse_codes_of codes = foldl (\<lambda>d (k, v). dict_set d v k) [] codes"

text \<open>
  The scan \<open>for bit in bit_string\<close>, with the state \<open>(current, decoded_text)\<close> returned
  as the loop leaves it.
\<close>

fun decode_loop ::
  "(string, 'c list) dict \<Rightarrow> string \<Rightarrow> string \<Rightarrow> 'c list list \<Rightarrow> string \<times> 'c list list"
where
  "decode_loop reverse_codes [] current decoded_text = (current, decoded_text)"
| "decode_loop reverse_codes (b # bits) current decoded_text =
     (let current' = current @ [b]
      in case map_of reverse_codes current' of
           Some symbol \<Rightarrow> decode_loop reverse_codes bits [] (decoded_text @ [symbol])
         | None \<Rightarrow> decode_loop reverse_codes bits current' decoded_text)"

text \<open>
  \<open>decompress_file\<close>, with the bytes of \<open>input_bin_path\<close> and the value \<open>json.load\<close>
  returns for \<open>codes_json_path\<close> as arguments (a dict of strings, or \<open>None\<close> for the
  JSON \<open>null\<close> that \<open>json.dump(None)\<close> writes); the result is the text written to
  \<open>output_path\<close>. \<open>codes.items()\<close> raises AttributeError on \<open>None\<close>.
\<close>

definition decompress_file ::
  "byte list \<Rightarrow> ('c list, string) dict option \<Rightarrow> py_error + 'c list"
where
  "decompress_file byte_data table =
     (let bit_string = bit_string_of byte_data
      in case table of
           None \<Rightarrow> Inl AttributeError
         | Some codes \<Rightarrow>
             (let reverse_codes = reverse_codes_of codes;
                  (current, decoded_text) = decode_loop reverse_codes bit_string [] []
              in Inr (concat decoded_text)))"

section \<open>Notions used to state the properties\<close>

text \<open>
  Compression followed by decompression of what it wrote: the bytes and the code table
  go from one to the other unchanged (\<open>json.load\<close> returns what \<open>json.dump\<close> was given:
  a dict from strings to strings, or \<open>None\<close>).
\<close>

definition roundtrip :: "('c list, string) dict \<Rightarrow> 'c list \<Rightarrow> py_error + 'c list" where
  "roundtrip default_codes text =
     (case fst (compress_file default_codes text) of
        Inl e \<Rightarrow> Inl e
      | Inr (byte_array, codes) \<Rightarrow> decompress_file byte_array codes)"

text \<open>
  Trees are read through \<open>'c node option\<close>, \<open>None\<close> being the absent child, as
  \<open>build_codes\<close> reads them. A node is a leaf when both children are absent.
\<close>

definition freq_of :: "'c node option \<Rightarrow> nat" where
  "freq_of n = (case n of None \<Rightarrow> 0 | Some t \<Rightarrow> freq t)"

text \<open>Strict binary: every node has no child or two.\<close>

fun strict_binary :: "'c node option \<Rightarrow> bool" where
  "strict_binary None = True"
| "strict_binary (Some (Node ch f l r)) =
     ((l = None \<longleftrightarrow> r = None) \<and> strict_binary l \<and> strict_binary r)"

fun num_leaves :: "'c node option \<Rightarrow> nat" where
  "num_leaves None = 0"
| "num_leaves (Some (Node ch f l r)) =
     (if l = None \<and> r = None then 1 else num_leaves l + num_leaves r)"

fun num_internal :: "'c node option \<Rightarrow> nat" where
  "num_internal None = 0"
| "num_internal (Some (Node ch f l r)) =
     (if l = None \<and> r = None then 0 else 1 + num_internal l + num_internal r)"

text \<open>The frequency of every node that is not a leaf is the sum of its children's.\<close>

fun freq_sums :: "'c node option \<Rightarrow> bool" where
  "freq_sums None = True"
| "freq_sums (Some (Node ch f l r)) =
     ((l = None \<and> r = None \<or> f = freq_of l + freq_of r) \<and> freq_sums l \<and> freq_sums r)"

text \<open>The symbols stored in a tree, in the order \<open>build_codes\<close> visits them.\<close>

fun node_chars :: "'c node option \<Rightarrow> 'c list list" where
  "node_chars None = []"
| "node_chars (Some (Node ch f l r)) =
     (case ch of None \<Rightarrow> [] | Some c \<Rightarrow> [c]) @ node_chars l @ node_chars r"

text \<open>
  The shape of the nodes the builder makes, for symbol weights \<open>w\<close>: a node with a symbol
  is a leaf whose frequency is the symbol's weight; a node without a symbol has two
  children and the sum of their frequencies.
\<close>

fun wf_tree :: "('c list \<Rightarrow> nat) \<Rightarrow> 'c node option \<Rightarrow> bool" where
  "wf_tree w None = True"
| "wf_tree w (Some (Node ch f l r)) =
     (case ch of
        Some c \<Rightarrow> l = None \<and> r = None \<and> f = w c
      | None \<Rightarrow> l \<noteq> None \<and> r \<noteq> None \<and> f = freq_of l + freq_of r \<and> wf_tree w l \<and> wf_tree w r)"

text \<open>
  What the merge loop keeps of its heap, as a multiset of nodes: every node is well
  formed, and the symbols of all nodes together are the multiset \<open>K\<close>.
\<close>

definition forest_inv :: "('c list \<Rightarrow> nat) \<Rightarrow> 'c list multiset \<Rightarrow> 'c node multiset \<Rightarrow> bool" where
  "forest_inv w K M \<longleftrightarrow>
     (\<forall>t \<in># M. wf_tree w (Some t)) \<and> (\<Sum>t \<in># M. mset (node_chars (Some t))) = K"

text \<open>
  The symbols of a tree with their paths from the root (0 to the left, 1 to the right),
  starting from the path \<open>cur\<close>, in the order \<open>build_codes\<close> stores them.
\<close>

fun code_paths :: "'c node option \<Rightarrow> string \<Rightarrow> ('c list \<times> string) list" where
  "code_paths None cur = []"
| "code_paths (Some (Node ch f l r)) cur =
     (case ch of None \<Rightarrow> [] | Some c \<Rightarrow> [(c, cur)])
       @ code_paths l (cur @ ''0'') @ code_paths r (cur @ ''1'')"

text \<open>The code of a symbol in a dumped table; the empty string where there is none.\<close>

definition code_of :: "('c list, string) dict option \<Rightarrow> 'c list \<Rightarrow> string" where
  "code_of codes ch = (case codes of None \<Rightarrow> [] | Some d \<Rightarrow> dict_get d ch [])"

text \<open>A code table is prefix-free: the code of a symbol is no prefix of another symbol's code.\<close>

definition prefix_free :: "('c list, string) dict \<Rightarrow> bool" where
  "prefix_free codes \<longleftrightarrow>
     (\<forall>a b ca cb. map_of codes a = Some ca \<and> map_of codes b = Some cb \<and> a \<noteq> b \<longrightarrow> \<not> prefix ca cb)"

text \<open>
  The heap order of \<open>heapq\<close>, from position \<open>k\<close> on: every position whose parent
  \<open>(c - 1) div 2\<close> is at \<open>k\<close> or later holds a node that is not less than its parent's.
  \<open>in_subtree k p\<close>: position \<open>p\<close> is \<open>k\<close> or below it in the tree of positions.
\<close>

function in_subtree :: "nat \<Rightarrow> nat \<Rightarrow> bool" where
  "in_subtree k p = (if p \<le> k then p = k else in_subtree k ((p - 1) div 2))"
  by pat_completeness auto
termination
  by (relation "measure snd") auto

declare in_subtree.simps [simp del]

definition heap_from :: "nat \<Rightarrow> 'c node list \<Rightarrow> bool" where
  "heap_from k h \<longleftrightarrow>
     (\<forall>c<length h. 0 < c \<and> k \<le> (c - 1) div 2 \<longrightarrow> freq (h ! ((c - 1) div 2)) \<le> freq (h ! c))"

text \<open>
  The weighted path length of a tree by its frequency fields: every inner node adds
  the frequencies of its two children.
\<close>

fun node_cost :: "'c node option \<Rightarrow> nat" where
  "node_cost None = 0"
| "node_cost (Some (Node ch f l r)) =
     (if l = None \<and> r = None then 0 else node_cost l + node_cost r + freq_of l + freq_of r)"

text \<open>
  A prefix-code tree for a text: a strict binary tree that holds a symbol at every leaf
  and nowhere else, each symbol of the text once and no other.
\<close>

fun code_tree :: "'c node option \<Rightarrow> bool" where
  "code_tree None = True"
| "code_tree (Some (Node ch f l r)) =
     (case ch of
        Some c \<Rightarrow> l = None \<and> r = None
      | None \<Rightarrow> l \<noteq> None \<and> r \<noteq> None \<and> code_tree l \<and> code_tree r)"

definition prefix_code_tree :: "'c list \<Rightarrow> 'c node option \<Rightarrow> bool" where
  "prefix_code_tree text n \<longleftrightarrow>
     n \<noteq> None \<and> code_tree n \<and> distinct (node_chars n) \<and> set (node_chars n) = set (chars_of text)"

text \<open>
  The sum, over the symbols of the text, of the symbol's frequency times the length of
  its code in a table.
\<close>

definition weighted_length :: "'c list \<Rightarrow> ('c list, string) dict \<Rightarrow> nat" where
  "weighted_length text codes =
     sum_list (map (\<lambda>(ch, n). n * length (dict_get codes ch [])) (Counter (chars_of text)))"

section \<open>Trees of weights\<close>

text \<open>
  For the optimality of the builder's tree, a binary tree with a weight at each leaf
  and nothing else: its leaves as a multiset, the sum of its weights, its height, and its
  weighted path length \<open>wcost\<close> (the sum over the leaves of weight times depth, computed
  as the sum of the weights below each inner node's two children). \<open>subst_leaf a x\<close>
  gives one leaf of weight \<open>a\<close> the weight \<open>x\<close>; \<open>contract c\<close> replaces two sibling
  leaves of greatest depth by one leaf of weight \<open>c\<close>.
\<close>

datatype wtree = WLeaf nat | WNode wtree wtree

fun wleaves :: "wtree \<Rightarrow> nat multiset" where
  "wleaves (WLeaf w) = {#w#}"
| "wleaves (WNode l r) = wleaves l + wleaves r"

fun weight :: "wtree \<Rightarrow> nat" where
  "weight (WLeaf w) = w"
| "weight (WNode l r) = weight l + weight r"

fun wheight :: "wtree \<Rightarrow> nat" where
  "wheight (WLeaf w) = 0"
| "wheight (WNode l r) = Suc (max (wheight l) (wheight r))"

fun wcost :: "wtree \<Rightarrow> nat" where
  "wcost (WLeaf w) = 0"
| "wcost (WNode l r) = wcost l + wcost r + weight l + weight r"

fun subst_leaf :: "nat \<Rightarrow> nat \<Rightarrow> wtree \<Rightarrow> wtree" where
  "subst_leaf a x (WLeaf w) = (if w = a then WLeaf x else WLeaf w)"
| "subst_leaf a x (WNode l r) =
     (if a \<in># wleaves l then WNode (subst_leaf a x l) r else WNode l (subst_leaf a x r))"

fun contract :: "nat \<Rightarrow> wtree \<Rightarrow> wtree" where
  "contract c (WLeaf w) = WLeaf w"
| "contract c (WNode (WLeaf x) (WLeaf y)) = WLeaf c"
| "contract c (WNode l r) =
     (if wheight r \<le> wheight l then WNode (contract c l) r else WNode l (contract c r))"

text \<open>The tree of weights of a prefix-code tree, for symbol weights \<open>w\<close>.\<close>

fun wshape :: "('c list \<Rightarrow> nat) \<Rightarrow> 'c node option \<Rightarrow> wtree" where
  "wshape w None = WLeaf 0"
| "wshape w (Some (Node ch f l r)) =
     (if l = None \<and> r = None then WLeaf (case ch of None \<Rightarrow> 0 | Some c \<Rightarrow> w c)
      else WNode (wshape w l) (wshape w r))"

section \<open>Dicts\<close>

lemma map_of_dict_set: "map_of (dict_set d k v) = (map_of d)(k \<mapsto> v)"
  by (induction d) (auto simp: fun_eq_iff)

lemma map_fst_dict_set:
  "map fst (dict_set d k v) = (if k \<in> fst ` set d then map fst d else map fst d @ [k])"
  by (induction d) force+

lemma distinct_dict_set: "distinct (map fst d) \<Longrightarrow> distinct (map fst (dict_set d k v))"
  by (simp add: map_fst_dict_set)

text \<open>The Counter of a list: its keys are the distinct elements, its values their counts.\<close>

lemma map_of_count_elem:
  "map_of (count_elem d e) k = (if k = e then Some (dict_get d e 0 + 1) else map_of d k)"
  by (simp add: count_elem_def map_of_dict_set)

lemma dict_get_count_elem:
  "dict_get (count_elem d e) k 0 = (if k = e then dict_get d e 0 + 1 else dict_get d k 0)"
  by (simp add: dict_get_def map_of_count_elem)

lemma Counter_foldl_map_of:
  "map_of (foldl count_elem d elems) k =
     (if k \<in> set elems then Some (dict_get d k 0 + count_list elems k) else map_of d k)"
proof (induction elems arbitrary: d)
  case Nil
  show ?case by simp
next
  case (Cons e elems)
  show ?case
    by (simp add: Cons.IH map_of_count_elem dict_get_count_elem)
qed

lemma Counter_foldl_keys:
  "distinct (map fst d) \<Longrightarrow>
   distinct (map fst (foldl count_elem d elems))
   \<and> set (map fst (foldl count_elem d elems)) = set (map fst d) \<union> set elems"
proof (induction elems arbitrary: d)
  case Nil
  then show ?case by simp
next
  case (Cons e elems)
  from Cons.prems have "distinct (map fst (count_elem d e))"
    unfolding count_elem_def by (rule distinct_dict_set)
  from Cons.IH [OF this] show ?case
    by (auto simp: count_elem_def map_fst_dict_set split: if_splits)
qed

lemma distinct_Counter: "distinct (map fst (Counter elems))"
  using Counter_foldl_keys [of "[]" elems] by (simp add: Counter_def)

lemma set_Counter: "set (map fst (Counter elems)) = set elems"
  using Counter_foldl_keys [of "[]" elems] by (simp add: Counter_def)

lemma map_of_Counter:
  "map_of (Counter elems) k = (if k \<in> set elems then Some (count_list elems k) else None)"
  by (simp add: Counter_def Counter_foldl_map_of dict_get_def)

lemma Counter_entry: "(k, n) \<in> set (Counter elems) \<Longrightarrow> n = count_list elems k \<and> k \<in> set elems"
proof -
  assume "(k, n) \<in> set (Counter elems)"
  with distinct_Counter [of elems] have "map_of (Counter elems) k = Some n"
    by simp
  then show ?thesis
    by (simp add: map_of_Counter split: if_splits)
qed

lemma length_Counter: "length (Counter elems) = card (set elems)"
proof -
  have "length (Counter elems) = length (map fst (Counter elems))" by simp
  also have "\<dots> = card (set (map fst (Counter elems)))"
    using distinct_Counter by (rule distinct_card [symmetric])
  finally show ?thesis by (simp only: set_Counter)
qed

lemma Counter_empty_iff: "Counter elems = [] \<longleftrightarrow> elems = []"
  using set_Counter [of elems] by (cases "Counter elems") auto

section \<open>The heap operations permute the list\<close>

lemma mset_update_move:
  assumes "i < length h" "j < length h" "i \<noteq> j"
  shows "mset (h[i := h ! j, j := x]) = mset (h[i := x])"
  using assms by (simp add: mset_update nth_list_update)

lemma siftdown_loop_mset:
  "pos < length heap \<Longrightarrow> siftdown_loop heap startpos newitem pos = (heap', pos') \<Longrightarrow>
   pos' < length heap \<and> mset (heap'[pos' := x]) = mset (heap[pos := x])"
proof (induction heap startpos newitem pos rule: siftdown_loop.induct)
  case (1 heap startpos newitem pos)
  show ?case
  proof (cases "pos > startpos \<and> node_lt newitem (heap ! ((pos - 1) div 2))")
    case True
    let ?pp = "(pos - 1) div 2"
    from True "1.prems" have pp: "?pp < pos" "?pp < length heap" by auto
    from True "1.prems"(2)
    have "siftdown_loop (heap[pos := heap ! ?pp]) startpos newitem ?pp = (heap', pos')"
      by (subst (asm) siftdown_loop.simps) (simp add: Let_def)
    with "1.IH" [of ?pp "heap ! ?pp"] True pp
    have "pos' < length heap \<and> mset (heap'[pos' := x]) = mset (heap[pos := heap ! ?pp, ?pp := x])"
      by simp
    moreover have "mset (heap[pos := heap ! ?pp, ?pp := x]) = mset (heap[pos := x])"
      using pp "1.prems"(1) by (intro mset_update_move) auto
    ultimately show ?thesis by simp
  next
    case False
    with "1.prems" show ?thesis
      by (subst (asm) siftdown_loop.simps) (auto simp: Let_def split: if_splits)
  qed
qed

lemma mset_siftdown: "pos < length heap \<Longrightarrow> mset (siftdown heap startpos pos) = mset heap"
proof -
  assume p: "pos < length heap"
  obtain heap' pos' where l: "siftdown_loop heap startpos (heap ! pos) pos = (heap', pos')"
    by (cases "siftdown_loop heap startpos (heap ! pos) pos")
  from siftdown_loop_mset [OF p l, of "heap ! pos"] l show ?thesis
    by (simp add: siftdown_def)
qed

lemma siftup_loop_mset:
  "pos < childpos \<Longrightarrow> pos < length heap \<Longrightarrow> endpos \<le> length heap \<Longrightarrow>
   siftup_loop heap endpos pos childpos = (heap', pos') \<Longrightarrow>
   pos' < length heap \<and> mset (heap'[pos' := x]) = mset (heap[pos := x])"
proof (induction heap endpos pos childpos rule: siftup_loop.induct)
  case (1 heap endpos pos childpos)
  show ?case
  proof (cases "childpos < endpos")
    case True
    define c where "c = (if childpos + 1 < endpos \<and> \<not> node_lt (heap ! childpos) (heap ! (childpos + 1))
                          then childpos + 1 else childpos)"
    from True have c: "c < endpos" "childpos \<le> c" by (auto simp: c_def)
    with "1.prems" have c': "c < length heap" "pos < c" "pos \<noteq> c" by auto
    have "siftup_loop heap endpos pos childpos =
        siftup_loop (heap[pos := heap ! c]) endpos c (2 * c + 1)"
      by (subst siftup_loop.simps) (simp add: True Let_def c_def)
    with "1.prems"(4)
    have l: "siftup_loop (heap[pos := heap ! c]) endpos c (2 * c + 1) = (heap', pos')"
      by simp
    have "pos' < length (heap[pos := heap ! c]) \<and>
        mset (heap'[pos' := x]) = mset ((heap[pos := heap ! c])[c := x])"
      using c' "1.prems"(3) l by (intro "1.IH" [OF True refl refl, folded c_def]) auto
    moreover have "mset (heap[pos := heap ! c, c := x]) = mset (heap[pos := x])"
      using c' "1.prems" by (intro mset_update_move) auto
    ultimately show ?thesis by simp
  next
    case False
    with "1.prems" show ?thesis
      by (subst (asm) siftup_loop.simps) (auto simp: Let_def)
  qed
qed

lemma mset_siftup: "pos < length heap \<Longrightarrow> mset (siftup heap pos) = mset heap"
proof -
  assume p: "pos < length heap"
  obtain heap' pos' where l: "siftup_loop heap (length heap) pos (2 * pos + 1) = (heap', pos')"
    by (cases "siftup_loop heap (length heap) pos (2 * pos + 1)")
  from siftup_loop_mset [OF _ p _ l, of "heap ! pos"]
  have "pos' < length heap" "mset (heap'[pos' := heap ! pos]) = mset heap" by auto
  moreover have "length heap' = length heap"
    using l by (rule length_siftup_loop_eq)
  ultimately show ?thesis
    using l by (simp add: siftup_def mset_siftdown)
qed

lemma mset_heapify_aux:
  "\<forall>i\<in>set is. i < length x \<Longrightarrow> mset (foldl siftup x is) = mset x"
  by (induction "is" arbitrary: x) (simp_all add: mset_siftup)

lemma mset_heapify: "mset (heapify x) = mset x"
  unfolding heapify_def by (rule mset_heapify_aux) auto

lemma mset_heappush: "mset (heappush heap item) = add_mset item (mset heap)"
  by (simp add: heappush_def Let_def mset_siftdown)

lemma heappop_Inr:
  "heap \<noteq> [] \<Longrightarrow> \<exists>item heap'. heappop heap = Inr (item, heap') \<and> mset heap = add_mset item (mset heap')"
proof (cases heap rule: rev_cases)
  case Nil
  assume "heap \<noteq> []"
  with Nil show ?thesis by simp
next
  case (snoc ys y)
  show ?thesis
  proof (cases "ys = []")
    case True
    with snoc show ?thesis by (simp add: heappop_def)
  next
    case False
    then have "mset (ys[0 := y]) = add_mset y (mset ys - {#ys ! 0#})"
      by (simp add: mset_update)
    moreover from False have "ys ! 0 \<in># mset ys"
      by (simp add: hd_conv_nth [symmetric])
    ultimately show ?thesis
      using snoc False by (simp add: heappop_def Let_def mset_siftup)
  qed
qed

lemma length_heapify [simp]: "length (heapify x) = length x"
  using mset_heapify [of x] by (rule mset_eq_length)

section \<open>The heap operations keep the heap order\<close>

lemma in_subtree_self [simp]: "in_subtree k k"
  by (subst in_subtree.simps) simp

lemma in_subtree_ge: "in_subtree k p \<Longrightarrow> k \<le> p"
  by (induction k p rule: in_subtree.induct) (subst (asm) in_subtree.simps, auto split: if_splits)

lemma in_subtree_parent:
  assumes "in_subtree k p" and "k < p"
  shows "in_subtree k ((p - 1) div 2)" and "k \<le> (p - 1) div 2"
proof -
  from assms show "in_subtree k ((p - 1) div 2)"
    by (subst (asm) in_subtree.simps) simp
  then show "k \<le> (p - 1) div 2"
    by (rule in_subtree_ge)
qed

lemma in_subtree_child:
  assumes "in_subtree k p" and "(c - 1) div 2 = p" and "0 < c"
  shows "in_subtree k c"
proof -
  from assms(2,3) have "p < c" by linarith
  with in_subtree_ge [OF assms(1)] have "\<not> c \<le> k" by simp
  with assms(1,2) show ?thesis
    by (subst in_subtree.simps) simp
qed

lemma in_subtree_0: "in_subtree 0 p"
proof (induction p rule: less_induct)
  case (less p)
  show ?case
  proof (cases "p = 0")
    case True
    then show ?thesis by simp
  next
    case False
    then have "(p - 1) div 2 < p" by linarith
    with less.IH have "in_subtree 0 ((p - 1) div 2)" by blast
    with False show ?thesis by (subst in_subtree.simps) simp
  qed
qed

lemma siftdown_loop_heap:
  assumes "siftdown_loop h k newitem pos = (h', pos')"
    and "pos < length h" and "in_subtree k pos"
    and "\<forall>c<length h. 0 < c \<and> k \<le> (c - 1) div 2 \<and> c \<noteq> pos \<longrightarrow> freq (h ! ((c - 1) div 2)) \<le> freq (h ! c)"
    and "k < pos \<longrightarrow> (\<forall>c<length h. 0 < c \<and> (c - 1) div 2 = pos \<longrightarrow> freq (h ! ((pos - 1) div 2)) \<le> freq (h ! c))"
    and "\<forall>c<length h. 0 < c \<and> (c - 1) div 2 = pos \<longrightarrow> freq newitem \<le> freq (h ! c)"
  shows "heap_from k (h'[pos' := newitem])"
  using assms
proof (induction h k newitem pos rule: siftdown_loop.induct)
  case (1 h k newitem pos)
  let ?pp = "(pos - 1) div 2"
  note I1 = "1.prems"(4) and I2 = "1.prems"(5) and I3 = "1.prems"(6)
  show ?case
  proof (cases "k < pos \<and> node_lt newitem (h ! ?pp)")
    case True
    then have kp: "k < pos" and lt: "freq newitem < freq (h ! ?pp)"
      by (simp_all add: node_lt_def)
    from kp have pp: "?pp < pos" by linarith
    with "1.prems"(2) have ppl: "?pp < length h" by simp
    from in_subtree_parent [OF "1.prems"(3) kp] have sub: "in_subtree k ?pp" and kpp: "k \<le> ?pp" .
    let ?h1 = "h[pos := h ! ?pp]"
    from True "1.prems"(1) have loop: "siftdown_loop ?h1 k newitem ?pp = (h', pos')"
      by (subst (asm) siftdown_loop.simps) (simp add: Let_def)
    have J1: "\<forall>c<length ?h1. 0 < c \<and> k \<le> (c - 1) div 2 \<and> c \<noteq> ?pp \<longrightarrow>
        freq (?h1 ! ((c - 1) div 2)) \<le> freq (?h1 ! c)"
    proof (intro allI impI, elim conjE)
      fix c assume c: "c < length ?h1" "0 < c" "k \<le> (c - 1) div 2" "c \<noteq> ?pp"
      show "freq (?h1 ! ((c - 1) div 2)) \<le> freq (?h1 ! c)"
      proof (cases "c = pos")
        case True
        with pp "1.prems"(2) show ?thesis by simp
      next
        case cp: False
        show ?thesis
        proof (cases "(c - 1) div 2 = pos")
          case True
          with I2 kp c have "freq (h ! ?pp) \<le> freq (h ! c)" by simp
          with True cp "1.prems"(2) show ?thesis by simp
        next
          case False
          with cp c I1 show ?thesis by simp
        qed
      qed
    qed
    have J2: "k < ?pp \<longrightarrow> (\<forall>c<length ?h1. 0 < c \<and> (c - 1) div 2 = ?pp \<longrightarrow>
        freq (?h1 ! ((?pp - 1) div 2)) \<le> freq (?h1 ! c))"
    proof (intro allI impI, elim conjE)
      fix c assume k: "k < ?pp" and c: "c < length ?h1" "0 < c" "(c - 1) div 2 = ?pp"
      from in_subtree_parent(2) [OF sub k] have kq: "k \<le> (?pp - 1) div 2" .
      from k have q: "(?pp - 1) div 2 < ?pp" by linarith
      from I1 [rule_format, of ?pp] ppl k kq pp
      have a: "freq (h ! ((?pp - 1) div 2)) \<le> freq (h ! ?pp)" by simp
      have b: "freq (h ! ?pp) \<le> freq (?h1 ! c)"
      proof (cases "c = pos")
        case True
        with "1.prems"(2) show ?thesis by simp
      next
        case False
        with I1 [rule_format, of c] c kpp show ?thesis by simp
      qed
      from q pp have "(?pp - 1) div 2 \<noteq> pos" by simp
      with a b show "freq (?h1 ! ((?pp - 1) div 2)) \<le> freq (?h1 ! c)" by simp
    qed
    have J3: "\<forall>c<length ?h1. 0 < c \<and> (c - 1) div 2 = ?pp \<longrightarrow> freq newitem \<le> freq (?h1 ! c)"
    proof (intro allI impI, elim conjE)
      fix c assume c: "c < length ?h1" "0 < c" "(c - 1) div 2 = ?pp"
      have "freq (h ! ?pp) \<le> freq (?h1 ! c)"
      proof (cases "c = pos")
        case True
        with "1.prems"(2) show ?thesis by simp
      next
        case False
        with I1 [rule_format, of c] c kpp show ?thesis by simp
      qed
      with lt show "freq newitem \<le> freq (?h1 ! c)" by simp
    qed
    from True have g: "k < pos" "node_lt newitem (h ! ?pp)" by simp_all
    from ppl have "?pp < length ?h1" by simp
    from g(1) refl refl g(2) loop this sub J1 J2 J3 show ?thesis
      by (rule "1.IH")
  next
    case False
    with "1.prems"(1) have eq: "h' = h" "pos' = pos"
      by (subst (asm) siftdown_loop.simps, auto simp: Let_def split: if_splits)+
    show ?thesis
      unfolding heap_from_def eq
    proof (intro allI impI, elim conjE)
      fix c assume c: "c < length (h[pos := newitem])" "0 < c" "k \<le> (c - 1) div 2"
      show "freq (h[pos := newitem] ! ((c - 1) div 2)) \<le> freq (h[pos := newitem] ! c)"
      proof (cases "c = pos")
        case True
        with c have "k < pos" "?pp \<noteq> pos" by linarith+
        with False have "freq (h ! ?pp) \<le> freq newitem" by (simp add: node_lt_def)
        with True \<open>?pp \<noteq> pos\<close> "1.prems"(2) show ?thesis by simp
      next
        case cp: False
        show ?thesis
        proof (cases "(c - 1) div 2 = pos")
          case True
          with I3 c have "freq newitem \<le> freq (h ! c)" by simp
          with True cp "1.prems"(2) show ?thesis by simp
        next
          case False
          with cp c I1 show ?thesis by simp
        qed
      qed
    qed
  qed
qed

lemma siftdown_heap:
  assumes "pos < length h" and "in_subtree k pos" and "length h \<le> 2 * pos + 1"
    and "\<forall>c<length h. 0 < c \<and> k \<le> (c - 1) div 2 \<and> c \<noteq> pos \<longrightarrow> freq (h ! ((c - 1) div 2)) \<le> freq (h ! c)"
  shows "heap_from k (siftdown h k pos)"
proof -
  obtain h' pos' where l: "siftdown_loop h k (h ! pos) pos = (h', pos')"
    by (cases "siftdown_loop h k (h ! pos) pos")
  have nochild: "\<not> (c < length h \<and> 0 < c \<and> (c - 1) div 2 = pos)" for c
    using assms(3) by linarith
  from l assms(1,2,4) have "heap_from k (h'[pos' := h ! pos])"
    by (rule siftdown_loop_heap) (use nochild in blast)+
  with l show ?thesis
    by (simp add: siftdown_def)
qed

lemma siftup_loop_heap:
  assumes "siftup_loop h n pos childpos = (h', pos')"
    and "childpos = 2 * pos + 1" and "pos < length h" and "in_subtree k pos"
    and "\<forall>c<length h. 0 < c \<and> k \<le> (c - 1) div 2 \<and> (c - 1) div 2 \<noteq> pos \<longrightarrow> freq (h ! ((c - 1) div 2)) \<le> freq (h ! c)"
    and "k < pos \<longrightarrow> (\<forall>c<length h. 0 < c \<and> (c - 1) div 2 = pos \<longrightarrow> freq (h ! ((pos - 1) div 2)) \<le> freq (h ! c))"
    and "n = length h"
  shows "pos' < length h \<and> in_subtree k pos' \<and> length h \<le> 2 * pos' + 1 \<and> length h' = length h \<and>
    (\<forall>c<length h. 0 < c \<and> k \<le> (c - 1) div 2 \<longrightarrow> freq (h' ! ((c - 1) div 2)) \<le> freq (h' ! c))"
  using assms
proof (induction h n pos childpos rule: siftup_loop.induct)
  case (1 h n pos childpos)
  note G = "1.prems"(5) and B = "1.prems"(6) and n = "1.prems"(7)
  let ?n = "length h"
  show ?case
  proof (cases "childpos < ?n")
    case True
    define c where "c = (if childpos + 1 < ?n \<and> \<not> node_lt (h ! childpos) (h ! (childpos + 1))
                          then childpos + 1 else childpos)"
    let ?h1 = "h[pos := h ! c]"
    have cc: "c = 2 * pos + 1 \<or> c = 2 * pos + 2" "c < ?n"
      using True "1.prems"(2) by (auto simp: c_def)
    then have cpar: "(c - 1) div 2 = pos" "0 < c" "pos < c" by linarith+
    have sib: "freq (h ! c) \<le> freq (h ! c')" if "c' < ?n" "0 < c'" "(c' - 1) div 2 = pos" for c'
    proof -
      from that have "c' = childpos \<or> c' = childpos + 1"
        using "1.prems"(2) by linarith
      then show ?thesis
        using that(1) by (auto simp: c_def node_lt_def)
    qed
    have "siftup_loop h ?n pos childpos = siftup_loop ?h1 ?n c (2 * c + 1)"
      by (subst siftup_loop.simps) (simp add: True Let_def c_def)
    with "1.prems"(1) n have loop: "siftup_loop ?h1 n c (2 * c + 1) = (h', pos')"
      by simp
    have sub: "in_subtree k c"
      using "1.prems"(4) cpar(1,2) by (rule in_subtree_child)
    from in_subtree_ge [OF "1.prems"(4)] cpar(3) have kc: "k < c" by simp
    have G1: "\<forall>c'<length ?h1. 0 < c' \<and> k \<le> (c' - 1) div 2 \<and> (c' - 1) div 2 \<noteq> c \<longrightarrow>
        freq (?h1 ! ((c' - 1) div 2)) \<le> freq (?h1 ! c')"
    proof (intro allI impI, elim conjE)
      fix c' assume c': "c' < length ?h1" "0 < c'" "k \<le> (c' - 1) div 2" "(c' - 1) div 2 \<noteq> c"
      show "freq (?h1 ! ((c' - 1) div 2)) \<le> freq (?h1 ! c')"
      proof (cases "(c' - 1) div 2 = pos")
        case True
        with c' have "c' \<noteq> pos" by linarith
        with True c' sib [of c'] "1.prems"(3) show ?thesis by simp
      next
        case np: False
        show ?thesis
        proof (cases "c' = pos")
          case True
          with c' have "k < pos" by linarith
          with B cc(2) cpar have "freq (h ! ((pos - 1) div 2)) \<le> freq (h ! c)" by simp
          with True np "1.prems"(3) show ?thesis by simp
        next
          case False
          with np c' G show ?thesis by simp
        qed
      qed
    qed
    have B1: "k < c \<longrightarrow> (\<forall>c'<length ?h1. 0 < c' \<and> (c' - 1) div 2 = c \<longrightarrow>
        freq (?h1 ! ((c - 1) div 2)) \<le> freq (?h1 ! c'))"
    proof (intro allI impI, elim conjE)
      fix c' assume c': "c' < length ?h1" "0 < c'" "(c' - 1) div 2 = c"
      with cpar(3) have "c' \<noteq> pos" by linarith
      moreover from G [rule_format, of c'] c' kc cpar(3) have "freq (h ! c) \<le> freq (h ! c')" by simp
      ultimately show "freq (?h1 ! ((c - 1) div 2)) \<le> freq (?h1 ! c')"
        using cpar(1) "1.prems"(3) by simp
    qed
    have cl: "c < length ?h1" using cc(2) by simp
    have n1: "n = length ?h1" using n by simp
    from True have tn: "childpos < n" using n by simp
    have "pos' < length ?h1 \<and> in_subtree k pos' \<and> length ?h1 \<le> 2 * pos' + 1 \<and> length h' = length ?h1 \<and>
      (\<forall>c<length ?h1. 0 < c \<and> k \<le> (c - 1) div 2 \<longrightarrow> freq (h' ! ((c - 1) div 2)) \<le> freq (h' ! c))"
      using loop cl sub G1 B1 n1
      by (intro "1.IH" [OF tn refl, of c]) (simp_all add: c_def n)
    then show ?thesis by simp
  next
    case False
    with "1.prems"(1) n have eq: "h' = h" "pos' = pos"
      by (subst (asm) siftup_loop.simps, simp)+
    have "freq (h ! ((c - 1) div 2)) \<le> freq (h ! c)" if "c < ?n" "0 < c" "k \<le> (c - 1) div 2" for c
    proof -
      from that False "1.prems"(2) have "(c - 1) div 2 \<noteq> pos" by linarith
      with G that show ?thesis by simp
    qed
    with False "1.prems"(2,3,4) show ?thesis
      by (simp add: eq)
  qed
qed

lemma siftup_heap:
  assumes "pos < length h" and "heap_from (Suc pos) h"
  shows "heap_from pos (siftup h pos)"
proof -
  obtain h' pos' where l: "siftup_loop h (length h) pos (2 * pos + 1) = (h', pos')"
    by (cases "siftup_loop h (length h) pos (2 * pos + 1)")
  have G: "\<forall>c<length h. 0 < c \<and> pos \<le> (c - 1) div 2 \<and> (c - 1) div 2 \<noteq> pos \<longrightarrow>
      freq (h ! ((c - 1) div 2)) \<le> freq (h ! c)"
    using assms(2) by (auto simp: heap_from_def)
  from siftup_loop_heap [OF l refl assms(1) in_subtree_self G _ refl]
  have r: "pos' < length h" "in_subtree pos pos'" "length h \<le> 2 * pos' + 1" "length h' = length h"
    "\<forall>c<length h. 0 < c \<and> pos \<le> (c - 1) div 2 \<longrightarrow> freq (h' ! ((c - 1) div 2)) \<le> freq (h' ! c)"
    by simp_all
  let ?h2 = "h'[pos' := h ! pos]"
  have "heap_from pos (siftdown ?h2 pos pos')"
  proof (rule siftdown_heap)
    show "pos' < length ?h2" using r by simp
    show "in_subtree pos pos'" by (rule r(2))
    show "length ?h2 \<le> 2 * pos' + 1" using r by simp
    show "\<forall>c<length ?h2. 0 < c \<and> pos \<le> (c - 1) div 2 \<and> c \<noteq> pos' \<longrightarrow>
        freq (?h2 ! ((c - 1) div 2)) \<le> freq (?h2 ! c)"
    proof (intro allI impI, elim conjE)
      fix c assume c: "c < length ?h2" "0 < c" "pos \<le> (c - 1) div 2" "c \<noteq> pos'"
      with r(3,4) have "(c - 1) div 2 \<noteq> pos'" by simp
      with c r(4,5) show "freq (?h2 ! ((c - 1) div 2)) \<le> freq (?h2 ! c)" by simp
    qed
  qed
  with l show ?thesis
    by (simp add: siftup_def)
qed

lemma heapify_aux:
  "m \<le> length h div 2 \<Longrightarrow> heap_from m h \<Longrightarrow> heap_from 0 (foldl siftup h (rev [0 ..< m]))"
proof (induction m arbitrary: h)
  case 0
  then show ?case by simp
next
  case (Suc m)
  then have "m < length h" by linarith
  from siftup_heap [OF this Suc.prems(2)] have "heap_from m (siftup h m)" .
  moreover from Suc.prems(1) have "m \<le> length (siftup h m) div 2" by simp
  ultimately have "heap_from 0 (foldl siftup (siftup h m) (rev [0 ..< m]))"
    by (intro Suc.IH)
  then show ?case by simp
qed

lemma heap_heapify: "heap_from 0 (heapify x)"
  unfolding heapify_def
proof (rule heapify_aux)
  show "length x div 2 \<le> length x div 2" by simp
  show "heap_from (length x div 2) x"
    unfolding heap_from_def by (intro allI impI) linarith
qed

lemma heap_heappush:
  assumes "heap_from 0 h"
  shows "heap_from 0 (heappush h x)"
proof -
  let ?h = "h @ [x]"
  have "heap_from 0 (siftdown ?h 0 (length ?h - 1))"
  proof (rule siftdown_heap)
    show "length ?h - 1 < length ?h" by simp
    show "in_subtree 0 (length ?h - 1)" by (rule in_subtree_0)
    show "length ?h \<le> 2 * (length ?h - 1) + 1" by simp
    show "\<forall>c<length ?h. 0 < c \<and> 0 \<le> (c - 1) div 2 \<and> c \<noteq> length ?h - 1 \<longrightarrow>
        freq (?h ! ((c - 1) div 2)) \<le> freq (?h ! c)"
    proof (intro allI impI, elim conjE)
      fix c assume c: "c < length ?h" "0 < c" "c \<noteq> length ?h - 1"
      then have cl: "c < length h" by simp
      then have "(c - 1) div 2 < length h" by linarith
      with cl c(2) assms show "freq (?h ! ((c - 1) div 2)) \<le> freq (?h ! c)"
        by (simp add: heap_from_def nth_append)
    qed
  qed
  then show ?thesis
    by (simp add: heappush_def Let_def)
qed

lemma heap_root_least:
  assumes "heap_from 0 h" and "i < length h"
  shows "freq (h ! 0) \<le> freq (h ! i)"
  using assms(2)
proof (induction i rule: less_induct)
  case (less i)
  show ?case
  proof (cases "i = 0")
    case True
    then show ?thesis by simp
  next
    case False
    then have p: "(i - 1) div 2 < i" by linarith
    with less.prems have "(i - 1) div 2 < length h" by simp
    with less.IH p have "freq (h ! 0) \<le> freq (h ! ((i - 1) div 2))" by blast
    also from assms(1) less.prems False have "\<dots> \<le> freq (h ! i)"
      by (simp add: heap_from_def)
    finally show ?thesis .
  qed
qed

lemma heap_heappop:
  assumes "heap_from 0 h" and "h \<noteq> []"
  shows "\<exists>item h'. heappop h = Inr (item, h') \<and> mset h = add_mset item (mset h')
     \<and> heap_from 0 h' \<and> (\<forall>y \<in># mset h'. freq item \<le> freq y)"
proof -
  from assms(2) obtain ys y where h: "h = ys @ [y]"
    by (cases h rule: rev_cases) auto
  from heappop_Inr [OF assms(2)] obtain item h' where
    p: "heappop h = Inr (item, h')" "mset h = add_mset item (mset h')"
    by blast
  have least: "freq (h ! 0) \<le> freq z" if "z \<in> set h" for z
  proof -
    from that obtain i where "i < length h" "h ! i = z"
      by (auto simp: in_set_conv_nth)
    with heap_root_least [OF assms(1)] show ?thesis by auto
  qed
  show ?thesis
  proof (cases "ys = []")
    case True
    with h p(1) have "h' = []" by (simp add: heappop_def)
    with p show ?thesis by (simp add: heap_from_def)
  next
    case False
    with h p(1) have item: "item = h ! 0" and h': "h' = siftup (ys[0 := y]) 0"
      by (simp_all add: heappop_def Let_def nth_append)
    have "heap_from (Suc 0) (ys[0 := y])"
      unfolding heap_from_def
    proof (intro allI impI, elim conjE)
      fix c assume c: "c < length (ys[0 := y])" "0 < c" "Suc 0 \<le> (c - 1) div 2"
      then have *: "(c - 1) div 2 < length ys" "(c - 1) div 2 \<noteq> 0" "c \<noteq> 0" "c < length ys"
        by simp_all
      then have "c < length h" using h by simp
      with assms(1) c(2) have "freq (h ! ((c - 1) div 2)) \<le> freq (h ! c)"
        by (simp add: heap_from_def)
      with * h show "freq (ys[0 := y] ! ((c - 1) div 2)) \<le> freq (ys[0 := y] ! c)"
        by (simp add: nth_append)
    qed
    with False have "heap_from 0 h'"
      unfolding h' by (intro siftup_heap) simp_all
    moreover have "freq item \<le> freq z" if "z \<in># mset h'" for z
    proof -
      from that p(2) have "z \<in># mset h" by simp
      then have "z \<in> set h" by simp
      with least item show ?thesis by simp
    qed
    ultimately show ?thesis using p by blast
  qed
qed

section \<open>The merge loop\<close>

text \<open>
  The loop returns, with at most one node left, and keeps every property of the multiset
  of nodes that merging two of them keeps.
\<close>

lemma huffman_loop_invariant:
  assumes "I (mset heap)"
    and step: "\<And>a b M. I (add_mset a (add_mset b M)) \<Longrightarrow>
      I (add_mset (Node None (freq a + freq b) (Some a) (Some b)) M)"
  shows "\<exists>heap'. huffman_loop heap = Inr heap' \<and> I (mset heap') \<and> length heap' = min 1 (length heap)"
  using assms(1)
proof (induction heap rule: huffman_loop.induct)
  case (1 heap)
  show ?case
  proof (cases "length heap > 1")
    case True
    then have "heap \<noteq> []" by auto
    from heappop_Inr [OF this] obtain node1 heap1 where
      p1: "heappop heap = Inr (node1, heap1)" "mset heap = add_mset node1 (mset heap1)"
      by blast
    from length_heappop [OF p1(1)] True have "heap1 \<noteq> []" by auto
    from heappop_Inr [OF this] obtain node2 heap2 where
      p2: "heappop heap1 = Inr (node2, heap2)" "mset heap1 = add_mset node2 (mset heap2)"
      by blast
    let ?merged = "Node None (freq node1 + freq node2) (Some node1) (Some node2)"
    have "I (mset (heappush heap2 ?merged))"
      using "1.prems" p1(2) p2(2) step [of node1 node2 "mset heap2"] by (simp add: mset_heappush)
    from "1.IH" [OF True p1(1) refl p2(1) refl refl this]
    obtain heap' where
      "huffman_loop (heappush heap2 ?merged) = Inr heap'" "I (mset heap')"
      "length heap' = min 1 (length (heappush heap2 ?merged))"
      by blast
    moreover have "huffman_loop heap = huffman_loop (heappush heap2 ?merged)"
      using True p1(1) p2(1) by (subst huffman_loop.simps) (simp add: Let_def)
    ultimately show ?thesis using True by auto
  next
    case False
    with "1.prems" show ?thesis
      by (subst huffman_loop.simps) (auto simp: min_def)
  qed
qed

section \<open>The tree the builder returns\<close>

lemma wf_tree_strict: "wf_tree w n \<Longrightarrow> strict_binary n"
  by (induction n rule: node_chars.induct) (auto split: option.splits)

lemma wf_tree_freq_sums: "wf_tree w n \<Longrightarrow> freq_sums n"
  by (induction n rule: node_chars.induct) (auto split: option.splits)

lemma wf_tree_num_leaves: "wf_tree w n \<Longrightarrow> num_leaves n = length (node_chars n)"
  by (induction n rule: node_chars.induct) (auto split: option.splits)

lemma wf_tree_num_internal: "wf_tree w n \<Longrightarrow> n \<noteq> None \<Longrightarrow> Suc (num_internal n) = num_leaves n"
proof (induction n rule: node_chars.induct)
  case 1
  then show ?case by simp
next
  case (2 ch f l r)
  show ?case
  proof (cases ch)
    case (Some c)
    with "2.prems" show ?thesis by simp
  next
    case None
    with "2.prems" have "wf_tree w l" "wf_tree w r" "l \<noteq> None" "r \<noteq> None" by auto
    with "2.IH" have "Suc (num_internal l) = num_leaves l" "Suc (num_internal r) = num_leaves r"
      by auto
    with \<open>l \<noteq> None\<close> show ?thesis by simp
  qed
qed

lemma forest_inv_merge:
  assumes "forest_inv w K (add_mset a (add_mset b M))"
  shows "forest_inv w K (add_mset (Node None (freq a + freq b) (Some a) (Some b)) M)"
  using assms by (auto simp: forest_inv_def freq_of_def)

lemma forest_inv_leaves:
  assumes "\<And>c f. (c, f) \<in> set fm \<Longrightarrow> f = w c"
  shows "forest_inv w (mset (map fst fm)) (mset (map (\<lambda>(char, freq). Node (Some char) freq None None) fm))"
  using assms by (induction fm) (auto simp: forest_inv_def)

lemma build_huffman_tree_empty: "build_huffman_tree [] = Inr None"
  by (simp add: build_huffman_tree_def chars_of_def Counter_def heapify_def huffman_loop.simps)

lemma build_huffman_tree_Some:
  assumes "text \<noteq> []"
  shows "\<exists>t. build_huffman_tree text = Inr (Some t)
     \<and> wf_tree (count_list (chars_of text)) (Some t)
     \<and> mset (node_chars (Some t)) = mset (map fst (Counter (chars_of text)))"
proof -
  let ?syms = "chars_of text"
  let ?fm = "Counter ?syms"
  let ?heap = "heapify (map (\<lambda>(char, freq). Node (Some char) freq None None) ?fm)"
  let ?I = "forest_inv (count_list ?syms) (mset (map fst ?fm))"
  have "?I (mset ?heap)"
    unfolding mset_heapify by (rule forest_inv_leaves) (simp add: Counter_entry)
  from huffman_loop_invariant [of ?I, OF this forest_inv_merge]
  obtain heap' where h: "huffman_loop ?heap = Inr heap'" "?I (mset heap')"
    "length heap' = min 1 (length ?heap)"
    by blast
  from assms have "?fm \<noteq> []"
    by (simp add: Counter_empty_iff chars_of_def)
  with h(3) have "length heap' = 1"
    by (cases ?fm) simp_all
  then obtain t where t: "heap' = [t]"
    by (cases heap') simp_all
  with h(2) have "wf_tree (count_list ?syms) (Some t)"
    "mset (node_chars (Some t)) = mset (map fst ?fm)"
    by (simp_all add: forest_inv_def)
  moreover have "build_huffman_tree text = Inr (Some t)"
    using h(1) t by (simp add: build_huffman_tree_def)
  ultimately show ?thesis by blast
qed

lemma build_huffman_tree_total: "\<exists>root. build_huffman_tree text = Inr root"
  using build_huffman_tree_empty build_huffman_tree_Some by (cases "text = []") blast+

section \<open>The code table is the list of the paths\<close>

lemma build_codes_snd:
  "snd (build_codes n cur codes) = foldl (\<lambda>d (k, v). dict_set d k v) codes (code_paths n cur)"
  by (induction n cur codes rule: build_codes.induct) (auto simp: Let_def split: option.splits)

lemma build_codes_fst:
  "fst (build_codes n cur codes) = (case n of None \<Rightarrow> None | Some t \<Rightarrow> Some (snd (build_codes n cur codes)))"
  by (induction n cur codes rule: build_codes.induct) (auto simp: Let_def split: option.splits)

lemma map_fst_code_paths: "map fst (code_paths n cur) = node_chars n"
  by (induction n cur rule: code_paths.induct) (auto split: option.splits)

lemma foldl_dict_set_fresh:
  "distinct (map fst (d @ ps)) \<Longrightarrow> foldl (\<lambda>d (k, v). dict_set d k v) d ps = d @ ps"
proof (induction ps arbitrary: d)
  case Nil
  show ?case by simp
next
  case (Cons kv ps)
  obtain k v where kv: "kv = (k, v)" by (cases kv)
  from Cons.prems kv have "k \<notin> fst ` set d" by auto
  then have "dict_set d k v = d @ [(k, v)]"
    by (induction d) auto
  with Cons.IH [of "d @ [(k, v)]"] Cons.prems kv show ?case by simp
qed

lemma map_of_foldl_dict_set:
  "map_of (foldl (\<lambda>d (k, v). dict_set d k v) d ps) = map_of d ++ map_of (rev ps)"
proof (induction ps arbitrary: d)
  case Nil
  show ?case by simp
next
  case (Cons kv ps)
  obtain k v where kv: "kv = (k, v)" by (cases kv)
  show ?case
    by (simp add: kv Cons.IH map_of_dict_set map_add_def fun_eq_iff split: option.splits)
qed

lemma code_paths_prefix: "(c, p) \<in> set (code_paths n cur) \<Longrightarrow> prefix cur p"
proof (induction n cur rule: code_paths.induct)
  case (1 cur)
  then show ?case by simp
next
  case (2 ch f l r cur)
  then show ?case
    by (auto split: option.splits dest: append_prefixD)
qed

lemma code_paths_bits:
  "(c, p) \<in> set (code_paths n cur) \<Longrightarrow> list_all is_bit cur \<Longrightarrow> list_all is_bit p"
  by (induction n cur rule: code_paths.induct) (auto split: option.splits simp: is_bit_def)

lemma code_paths_prefix_free:
  "wf_tree w n \<Longrightarrow> (a, p) \<in> set (code_paths n cur) \<Longrightarrow> (b, q) \<in> set (code_paths n cur) \<Longrightarrow>
   a \<noteq> b \<Longrightarrow> \<not> prefix p q"
proof (induction n cur rule: code_paths.induct)
  case (1 cur)
  then show ?case by simp
next
  case (2 ch f l r cur)
  show ?case
  proof (cases ch)
    case (Some c)
    with "2.prems" show ?thesis by simp
  next
    case None
    with "2.prems"(1) have wf: "wf_tree w l" "wf_tree w r" by auto
    have cross: "\<not> prefix p' q'" "\<not> prefix q' p'"
      if "(a', p') \<in> set (code_paths l (cur @ ''0''))" "(b', q') \<in> set (code_paths r (cur @ ''1''))"
      for a' p' b' q'
    proof -
      from that have "prefix (cur @ ''0'') p'" "prefix (cur @ ''1'') q'"
        by (auto dest: code_paths_prefix)
      then obtain x y where "p' = cur @ ''0'' @ x" "q' = cur @ ''1'' @ y"
        by (auto simp: prefix_def)
      then show "\<not> prefix p' q'" "\<not> prefix q' p'"
        by (auto simp: prefix_def)
    qed
    from "2.prems"(2,3) None
    consider "(a, p) \<in> set (code_paths l (cur @ ''0''))" "(b, q) \<in> set (code_paths l (cur @ ''0''))"
      | "(a, p) \<in> set (code_paths r (cur @ ''1''))" "(b, q) \<in> set (code_paths r (cur @ ''1''))"
      | "(a, p) \<in> set (code_paths l (cur @ ''0''))" "(b, q) \<in> set (code_paths r (cur @ ''1''))"
      | "(b, q) \<in> set (code_paths l (cur @ ''0''))" "(a, p) \<in> set (code_paths r (cur @ ''1''))"
      by auto
    then show ?thesis
    proof cases
      case 1
      with "2.IH"(1) wf "2.prems"(4) show ?thesis by blast
    next
      case 2
      with "2.IH"(2) wf "2.prems"(4) show ?thesis by blast
    next
      case 3
      then show ?thesis by (rule cross(1))
    next
      case 4
      then show ?thesis by (rule cross(2))
    qed
  qed
qed

text \<open>On a fresh dict the table is the list of the paths.\<close>

lemma build_codes_fresh:
  "distinct (node_chars n) \<Longrightarrow> snd (build_codes n cur []) = code_paths n cur"
  using foldl_dict_set_fresh [of "[]" "code_paths n cur"]
  by (simp add: build_codes_snd map_fst_code_paths)

section \<open>Packing bits into bytes\<close>

lemma bits_value_snoc:
  "bits_value (s @ [c]) = 2 * bits_value s + (if c = CHR ''1'' then 1 else 0)"
  by (simp add: bits_value_def)

lemma bits_value_less: "bits_value s < 2 ^ length s"
proof (induction s rule: rev_induct)
  case Nil
  show ?case by (simp add: bits_value_def)
next
  case (snoc c s)
  then show ?case by (simp add: bits_value_snoc)
qed

lemma bit_bits_value:
  "i < length s \<Longrightarrow> bit (bits_value s) i \<longleftrightarrow> s ! (length s - 1 - i) = CHR ''1''"
proof (induction s arbitrary: i rule: rev_induct)
  case Nil
  then show ?case by simp
next
  case (snoc c s)
  show ?case
  proof (cases i)
    case 0
    then show ?thesis by (simp add: bits_value_snoc bit_0)
  next
    case (Suc k)
    with snoc.prems have k: "k < length s" by simp
    have "bit (bits_value (s @ [c])) (Suc k) \<longleftrightarrow> bit (bits_value s) k"
      by (simp add: bits_value_snoc bit_Suc)
    also have "\<dots> \<longleftrightarrow> s ! (length s - 1 - k) = CHR ''1''"
      using k by (rule snoc.IH)
    finally have "bit (bits_value (s @ [c])) (Suc k) \<longleftrightarrow> s ! (length s - 1 - k) = CHR ''1''" .
    moreover from k have "length s - Suc k < length s" by simp
    ultimately show ?thesis
      using Suc by (simp add: nth_append)
  qed
qed

lemma format_08b_nth:
  "j < 8 \<Longrightarrow> format_08b b ! j = (if bit b (7 - j) then CHR ''1'' else CHR ''0'')"
proof -
  assume j: "j < 8"
  then have "rev [0 ..< 8] ! j = 7 - j"
    by (simp add: rev_nth)
  with j show ?thesis
    by (simp add: format_08b_def del: upt_rec_numeral rev.simps)
qed

lemma length_format_08b [simp]: "length (format_08b b) = 8"
  by (simp add: format_08b_def)

lemma format_08b_bits_value:
  assumes "length chunk = 8" and "list_all is_bit chunk"
  shows "format_08b (of_nat (bits_value chunk)) = chunk"
proof (rule nth_equalityI)
  show "length (format_08b (of_nat (bits_value chunk))) = length chunk"
    using assms(1) by simp
next
  fix j
  assume "j < length (format_08b (of_nat (bits_value chunk)))"
  then have j: "j < 8" by simp
  then have "bit (of_nat (bits_value chunk) :: byte) (7 - j) \<longleftrightarrow> bit (bits_value chunk) (7 - j)"
    by (auto simp: bit_of_nat_iff)
  also have "\<dots> \<longleftrightarrow> chunk ! (length chunk - 1 - (7 - j)) = CHR ''1''"
    using assms(1) j by (intro bit_bits_value) simp
  also have "length chunk - 1 - (7 - j) = j"
    using assms(1) j by simp
  finally have "bit (of_nat (bits_value chunk) :: byte) (7 - j) \<longleftrightarrow> chunk ! j = CHR ''1''" .
  moreover from assms j have "is_bit (chunk ! j)"
    by (simp add: list_all_length)
  ultimately show "format_08b (of_nat (bits_value chunk)) ! j = chunk ! j"
    using j by (auto simp: format_08b_nth is_bit_def)
qed

lemma pack_loop_bit_string:
  "list_all is_bit s \<Longrightarrow> 8 dvd length s \<Longrightarrow> 8 dvd i \<Longrightarrow>
   \<exists>bs. pack_loop s i acc = Inr (acc @ bs) \<and> bit_string_of bs = drop i s"
proof (induction s i acc rule: pack_loop.induct)
  case (1 s i acc)
  show ?case
  proof (cases "i < length s")
    case True
    let ?chunk = "take 8 (drop i s)"
    from "1.prems"(2,3) True have "i + 8 \<le> length s"
      by (auto simp: dvd_def)
    then have len: "length ?chunk = 8" by simp
    from "1.prems"(1) have bits: "list_all is_bit ?chunk"
      by (auto simp: list_all_iff dest: in_set_takeD in_set_dropD)
    from len have ne: "?chunk \<noteq> []" by auto
    from bits ne have i2: "int_base2 ?chunk = Inr (bits_value ?chunk)"
      by (simp add: int_base2_def)
    from bits_value_less [of ?chunk] len have lt: "bits_value ?chunk < 256" by simp
    then have ap: "bytearray_append acc (bits_value ?chunk) = Inr (acc @ [of_nat (bits_value ?chunk)])"
      by (simp add: bytearray_append_def)
    from "1.prems"(3) have "8 dvd i + 8" by simp
    from "1.IH" [OF True i2 ap "1.prems"(1,2) this]
    obtain bs where bs: "pack_loop s (i + 8) (acc @ [of_nat (bits_value ?chunk)]) = Inr ((acc @ [of_nat (bits_value ?chunk)]) @ bs)"
      "bit_string_of bs = drop (i + 8) s"
      by blast
    have "pack_loop s i acc = pack_loop s (i + 8) (acc @ [of_nat (bits_value ?chunk)])"
      using True i2 ap by (subst pack_loop.simps) simp
    moreover have "bit_string_of (of_nat (bits_value ?chunk) # bs) = drop i s"
    proof -
      have "bit_string_of (of_nat (bits_value ?chunk) # bs) = ?chunk @ drop (i + 8) s"
        using bs(2) len bits by (simp add: bit_string_of_def format_08b_bits_value)
      also have "\<dots> = ?chunk @ drop 8 (drop i s)"
        by (simp add: add.commute)
      also have "\<dots> = drop i s"
        by (rule append_take_drop_id)
      finally show ?thesis .
    qed
    ultimately show ?thesis
      using bs(1) by (intro exI [of _ "of_nat (bits_value ?chunk) # bs"]) simp
  next
    case False
    then show ?thesis
      by (subst pack_loop.simps) (simp add: bit_string_of_def)
  qed
qed

lemma length_bit_string_of [simp]: "length (bit_string_of bs) = 8 * length bs"
  by (induction bs) (simp_all add: bit_string_of_def)

lemma bit_string_of_nth:
  "i < length bs \<Longrightarrow> j < 8 \<Longrightarrow> bit_string_of bs ! (8 * i + j) = format_08b (bs ! i) ! j"
proof (induction bs arbitrary: i)
  case Nil
  then show ?case by simp
next
  case (Cons b bs)
  show ?case
  proof (cases i)
    case 0
    with Cons.prems show ?thesis
      by (simp add: bit_string_of_def nth_append)
  next
    case (Suc k)
    with Cons.prems have "bit_string_of bs ! (8 * k + j) = format_08b (bs ! k) ! j"
      by (intro Cons.IH) simp_all
    with Suc show ?thesis
      by (simp add: bit_string_of_def nth_append)
  qed
qed

section \<open>What compress_file returns\<close>

lemma code_of_Some: "map_of d ch = Some c \<Longrightarrow> code_of (Some d) ch = c"
  by (simp add: code_of_def dict_get_def)

lemma encode_text_Inr:
  "\<forall>ch\<in>set syms. \<exists>d c. codes = Some d \<and> map_of d ch = Some c \<Longrightarrow>
   encode_text codes syms = Inr (concat (map (code_of codes) syms))"
proof (induction syms)
  case Nil
  show ?case by simp
next
  case (Cons ch syms)
  from Cons.prems obtain d c where d: "codes = Some d" "map_of d ch = Some c"
    by auto
  from Cons.prems have "encode_text codes syms = Inr (concat (map (code_of codes) syms))"
    by (intro Cons.IH) simp
  with d show ?case
    by (simp add: code_of_Some)
qed

lemma padded_length: "8 dvd (n + (8 - n mod 8) mod 8)" for n :: nat
proof -
  define a r where "a = n div 8" and "r = n mod 8"
  have n: "n = 8 * a + r" and r: "r < 8"
    by (simp_all add: a_def r_def)
  show ?thesis
  proof (cases "r = 0")
    case True
    then show ?thesis by (simp add: n)
  next
    case False
    with r have "(8 * a + r + (8 - (8 * a + r) mod 8) mod 8) = 8 * (a + 1)"
      by simp
    then show ?thesis
      unfolding n by (metis dvd_triv_left)
  qed
qed

lemma set_node_chars_built:
  assumes "build_huffman_tree text = Inr (Some t)"
  shows "set (node_chars (Some t)) = set (chars_of text)" and "distinct (node_chars (Some t))"
    and "wf_tree (count_list (chars_of text)) (Some t)"
proof -
  from assms have "text \<noteq> []"
    by (auto simp: build_huffman_tree_empty)
  from build_huffman_tree_Some [OF this] assms
  have *: "wf_tree (count_list (chars_of text)) (Some t)"
    "mset (node_chars (Some t)) = mset (map fst (Counter (chars_of text)))"
    by auto
  from *(2) have "set (node_chars (Some t)) = set (map fst (Counter (chars_of text)))"
    by (rule mset_eq_setD)
  then show "set (node_chars (Some t)) = set (chars_of text)"
    by (simp only: set_Counter)
  from *(2) have "distinct (node_chars (Some t)) \<longleftrightarrow> distinct (map fst (Counter (chars_of text)))"
    by (rule mset_eq_imp_distinct_iff)
  then show "distinct (node_chars (Some t))"
    by (simp add: distinct_Counter)
  show "wf_tree (count_list (chars_of text)) (Some t)" by (rule *(1))
qed

lemma built_codes_cover:
  assumes "build_huffman_tree text = Inr root" and "ch \<in> set (chars_of text)"
  shows "\<exists>d c. fst (build_codes root [] st) = Some d \<and> map_of d ch = Some c \<and> list_all is_bit c"
proof -
  from assms(2) have "text \<noteq> []" by (auto simp: chars_of_def)
  from build_huffman_tree_Some [OF this] assms(1) obtain t where t: "root = Some t"
    by auto
  let ?ps = "code_paths (Some t) []"
  let ?d = "snd (build_codes (Some t) [] st)"
  have "set (node_chars (Some t)) = set (chars_of text)"
    using assms(1) t by (intro set_node_chars_built(1)) simp
  with assms(2) have "ch \<in> fst ` set (rev ?ps)"
    using map_fst_code_paths [of "Some t" "[]"] by (metis set_map set_rev)
  then have "map_of (rev ?ps) ch \<noteq> None"
    by (simp only: map_of_eq_None_iff not_not)
  then obtain c where c: "map_of (rev ?ps) ch = Some c"
    by blast
  then have "(ch, c) \<in> set ?ps"
    by (auto dest: map_of_SomeD)
  then have "list_all is_bit c"
    by (rule code_paths_bits) simp
  moreover have "map_of ?d ch = Some c"
    using c by (simp add: build_codes_snd map_of_foldl_dict_set map_add_def del: code_paths.simps)
  moreover have "fst (build_codes root [] st) = Some ?d"
    by (simp add: build_codes_fst t del: build_codes.simps)
  ultimately show ?thesis using t by blast
qed

lemma list_all_replicate_zero: "list_all is_bit (replicate n (CHR ''0''))"
  by (induction n) (simp_all add: is_bit_def)

lemma compress_file_result:
  assumes "build_huffman_tree text = Inr root" and "build_codes root [] st = (codes, st')"
  shows "\<exists>byte_array. compress_file st text = (Inr (byte_array, codes), st')
     \<and> bit_string_of byte_array =
         concat (map (code_of codes) (chars_of text))
         @ replicate ((8 - length (concat (map (code_of codes) (chars_of text))) mod 8) mod 8) (CHR ''0'')"
proof -
  define bits where "bits = concat (map (code_of codes) (chars_of text))"
  define padded where "padded = bits @ replicate ((8 - length bits mod 8) mod 8) (CHR ''0'')"
  have cover: "\<exists>d c. codes = Some d \<and> map_of d ch = Some c \<and> list_all is_bit c"
    if "ch \<in> set (chars_of text)" for ch
    using built_codes_cover [OF assms(1) that, of st] assms(2) by simp
  then have "\<forall>ch\<in>set (chars_of text). \<exists>d c. codes = Some d \<and> map_of d ch = Some c"
    by blast
  then have enc: "encode_text codes (chars_of text) = Inr bits"
    unfolding bits_def by (rule encode_text_Inr)
  have "list_all is_bit (code_of codes ch)" if "ch \<in> set (chars_of text)" for ch
    using cover [OF that] by (auto simp: code_of_Some)
  then have "list_all is_bit bits"
    unfolding bits_def list_all_iff by auto
  then have "list_all is_bit padded"
    unfolding padded_def by (simp only: list_all_append list_all_replicate_zero simp_thms)
  moreover have "8 dvd length padded"
    using padded_length [of "length bits"]
    by (simp only: padded_def length_append length_replicate)
  moreover have "8 dvd (0::nat)" by simp
  ultimately obtain bs where bs: "pack_loop padded 0 [] = Inr ([] @ bs)" "bit_string_of bs = drop 0 padded"
    using pack_loop_bit_string [of padded 0 "[]"] by blast
  have "compress_file st text = (Inr (bs, codes), st')"
    unfolding compress_file_def using assms enc bs(1)
    by (simp add: Let_def padded_def del: build_codes.simps)
  moreover from bs(2) have "bit_string_of bs = padded"
    by simp
  ultimately show ?thesis
    unfolding padded_def bits_def by blast
qed

text \<open>On a fresh dict the table of a non-empty text is the list of its tree's paths.\<close>

lemma fresh_table:
  assumes "build_huffman_tree text = Inr (Some t)"
  shows "build_codes (Some t) [] [] = (Some (code_paths (Some t) []), code_paths (Some t) [])"
proof -
  from set_node_chars_built(2) [OF assms]
  have "snd (build_codes (Some t) [] []) = code_paths (Some t) []"
    by (rule build_codes_fresh)
  moreover have "fst (build_codes (Some t) [] []) = Some (snd (build_codes (Some t) [] []))"
    by (simp add: build_codes_fst del: build_codes.simps)
  ultimately show ?thesis
    by (metis prod.collapse)
qed

lemma built_paths_prefix_free:
  assumes "build_huffman_tree text = Inr (Some t)"
  shows "prefix_free (code_paths (Some t) [])"
  unfolding prefix_free_def
proof (intro allI impI, elim conjE)
  fix a b ca cb
  assume "map_of (code_paths (Some t) []) a = Some ca" "map_of (code_paths (Some t) []) b = Some cb"
    and "a \<noteq> b"
  then have m: "(a, ca) \<in> set (code_paths (Some t) [])" "(b, cb) \<in> set (code_paths (Some t) [])"
    by (auto dest: map_of_SomeD)
  from set_node_chars_built(3) [OF assms] m \<open>a \<noteq> b\<close> show "\<not> prefix ca cb"
    by (rule code_paths_prefix_free)
qed

section \<open>The decoder\<close>

text \<open>The reverse map looks a code up among the table's entries from the last to the first.\<close>

lemma map_of_reverse_codes_aux:
  "map_of (foldl (\<lambda>d (k, v). dict_set d v k) d codes) =
   map_of (rev (map (\<lambda>(k, v). (v, k)) codes) @ d)"
proof (induction codes arbitrary: d)
  case Nil
  show ?case by simp
next
  case (Cons kv codes)
  obtain k v where kv: "kv = (k, v)" by (cases kv)
  show ?case
    by (simp add: kv Cons.IH map_of_dict_set map_add_def fun_eq_iff split: option.splits)
qed

lemma map_of_reverse_codes_of:
  "map_of (reverse_codes_of codes) = map_of (rev (map (\<lambda>(k, v). (v, k)) codes))"
  by (simp add: reverse_codes_of_def map_of_reverse_codes_aux)

lemma reverse_codes_last:
  assumes "codes = pre @ (k, code) # post" and "code \<notin> snd ` set post"
  shows "map_of (reverse_codes_of codes) code = Some k"
proof -
  have "map_of (rev (map (\<lambda>(k, v). (v, k)) post)) code = None"
    using assms(2) by (force simp: map_of_eq_None_iff)
  then show ?thesis
    by (simp add: assms(1) map_of_reverse_codes_of map_add_def)
qed

lemma decompress_file_total:
  "\<exists>text. decompress_file byte_data (Some codes) = Inr text"
  by (simp add: decompress_file_def Let_def split: prod.splits)

text \<open>
  The scan splits its input into a part it consumed, ending at a match (or empty), and
  a rest on which the accumulator never matched.
\<close>

lemma decode_loop_split:
  "decode_loop rc bits cur out = (cur', out') \<Longrightarrow>
   \<exists>consumed rest cur''. bits = consumed @ rest \<and> decode_loop rc consumed cur out = (cur'', out')
      \<and> cur' = cur'' @ rest
      \<and> (\<forall>n. 0 < n \<and> n \<le> length rest \<longrightarrow> map_of rc (cur'' @ take n rest) = None)
      \<and> (consumed = [] \<or> cur'' = [])"
proof (induction bits arbitrary: cur out)
  case Nil
  then show ?case by simp
next
  case (Cons b bs)
  show ?case
  proof (cases "map_of rc (cur @ [b])")
    case (Some s)
    with Cons.prems have "decode_loop rc bs [] (out @ [s]) = (cur', out')" by simp
    from Cons.IH [OF this] obtain consumed rest cur'' where
      *: "bs = consumed @ rest" "decode_loop rc consumed [] (out @ [s]) = (cur'', out')"
         "cur' = cur'' @ rest"
         "\<forall>n. 0 < n \<and> n \<le> length rest \<longrightarrow> map_of rc (cur'' @ take n rest) = None"
         "consumed = [] \<or> cur'' = []"
      by blast
    from *(2,5) have c: "cur'' = []" by auto
    have "decode_loop rc (b # consumed) cur out = (cur'', out')"
      using Some *(2) by simp
    with * c show ?thesis
      by (intro exI [of _ "b # consumed"] exI [of _ rest] exI [of _ cur'']) simp
  next
    case None
    with Cons.prems have "decode_loop rc bs (cur @ [b]) out = (cur', out')" by simp
    from Cons.IH [OF this] obtain consumed rest cur'' where
      *: "bs = consumed @ rest" "decode_loop rc consumed (cur @ [b]) out = (cur'', out')"
         "cur' = cur'' @ rest"
         "\<forall>n. 0 < n \<and> n \<le> length rest \<longrightarrow> map_of rc (cur'' @ take n rest) = None"
         "consumed = [] \<or> cur'' = []"
      by blast
    show ?thesis
    proof (cases "consumed = []")
      case True
      with * have c: "cur'' = cur @ [b]" "rest = bs" "out' = out" by auto
      have "map_of rc (cur @ take n (b # bs)) = None" if "0 < n" "n \<le> length (b # bs)" for n
      proof (cases n)
        case 0
        with that show ?thesis by simp
      next
        case (Suc m)
        show ?thesis
        proof (cases "m = 0")
          case True
          with Suc None show ?thesis by simp
        next
          case False
          with Suc that *(4) c show ?thesis by simp
        qed
      qed
      with c *(3) show ?thesis
        by (intro exI [of _ "[]"] exI [of _ "b # bs"] exI [of _ cur]) simp
    next
      case False
      with *(5) have c: "cur'' = []" by simp
      have "decode_loop rc (b # consumed) cur out = (cur'', out')"
        using None *(2) by simp
      with * c show ?thesis
        by (intro exI [of _ "b # consumed"] exI [of _ rest] exI [of _ cur'']) simp
    qed
  qed
qed

section \<open>Decoding what was encoded\<close>

text \<open>
  When the accumulator meets a code of the reverse map, and none before, the scan emits
  its symbol and starts again.
\<close>

lemma decode_loop_emit:
  assumes "p2 \<noteq> []" and "map_of rc (cur @ p2) = Some a"
    and "\<forall>n. 0 < n \<and> n < length p2 \<longrightarrow> map_of rc (cur @ take n p2) = None"
  shows "decode_loop rc (p2 @ rest) cur out = decode_loop rc rest [] (out @ [a])"
  using assms
proof (induction p2 arbitrary: cur)
  case Nil
  then show ?case by simp
next
  case (Cons b p2)
  show ?case
  proof (cases "p2 = []")
    case True
    with Cons.prems(2) show ?thesis by simp
  next
    case False
    from Cons.prems(3) [rule_format, of 1] False have none: "map_of rc (cur @ [b]) = None"
      by (cases p2) simp_all
    have "map_of rc ((cur @ [b]) @ take n p2) = None" if "0 < n \<and> n < length p2" for n
      using Cons.prems(3) [rule_format, of "Suc n"] that by simp
    with Cons.IH [of "cur @ [b]"] False Cons.prems(2)
    have "decode_loop rc (p2 @ rest) (cur @ [b]) out = decode_loop rc rest [] (out @ [a])"
      by simp
    with none show ?thesis by simp
  qed
qed

lemma decode_loop_concat:
  assumes "\<And>s. s \<in> set syms \<Longrightarrow> code s \<noteq> [] \<and> map_of rc (code s) = Some s
      \<and> (\<forall>n. 0 < n \<and> n < length (code s) \<longrightarrow> map_of rc (take n (code s)) = None)"
  shows "decode_loop rc (concat (map code syms) @ rest) [] out = decode_loop rc rest [] (out @ syms)"
  using assms
proof (induction syms arbitrary: out)
  case Nil
  show ?case by simp
next
  case (Cons s syms)
  from Cons.prems [of s] have s: "code s \<noteq> []" "map_of rc ([] @ code s) = Some s"
    "\<forall>n. 0 < n \<and> n < length (code s) \<longrightarrow> map_of rc ([] @ take n (code s)) = None"
    by simp_all
  have "decode_loop rc (code s @ concat (map code syms) @ rest) [] out
      = decode_loop rc (concat (map code syms) @ rest) [] (out @ [s])"
    using s by (rule decode_loop_emit)
  also have "\<dots> = decode_loop rc rest [] ((out @ [s]) @ syms)"
    using Cons.prems by (intro Cons.IH) simp
  finally show ?case by simp
qed

lemma reverse_codes_SomeD:
  "map_of (reverse_codes_of d) q = Some b \<Longrightarrow> (b, q) \<in> set d"
  by (auto simp: map_of_reverse_codes_of dest!: map_of_SomeD)

lemma reverse_codes_not_None:
  "(a, p) \<in> set d \<Longrightarrow> map_of (reverse_codes_of d) p \<noteq> None"
proof -
  assume "(a, p) \<in> set d"
  then have "p \<in> fst ` set (rev (map (\<lambda>(k, v). (v, k)) d))"
    by force
  then show ?thesis
    by (simp only: map_of_reverse_codes_of map_of_eq_None_iff not_not)
qed

lemma wf_tree_two_chars_paths_nonempty:
  assumes "wf_tree w (Some t)" and "2 \<le> length (node_chars (Some t))"
    and "(a, p) \<in> set (code_paths (Some t) [])"
  shows "p \<noteq> []"
proof -
  obtain ch f l r where t: "t = Node ch f l r" by (cases t)
  show ?thesis
  proof (cases ch)
    case (Some c)
    with assms(1,2) t show ?thesis by simp
  next
    case None
    with assms(3) t have "(a, p) \<in> set (code_paths l ''0'') \<or> (a, p) \<in> set (code_paths r ''1'')"
      by simp
    then have "prefix ''0'' p \<or> prefix ''1'' p"
      by (auto dest: code_paths_prefix)
    then show ?thesis by auto
  qed
qed

lemma built_table_decodes:
  assumes t: "build_huffman_tree text = Inr (Some t)" and two: "2 \<le> card (set text)"
    and s: "s \<in> set (chars_of text)"
  shows "code_of (Some (code_paths (Some t) [])) s \<noteq> []
     \<and> map_of (reverse_codes_of (code_paths (Some t) [])) (code_of (Some (code_paths (Some t) [])) s) = Some s
     \<and> (\<forall>n. 0 < n \<and> n < length (code_of (Some (code_paths (Some t) [])) s) \<longrightarrow>
          map_of (reverse_codes_of (code_paths (Some t) [])) (take n (code_of (Some (code_paths (Some t) [])) s)) = None)"
proof -
  let ?d = "code_paths (Some t) []"
  let ?rc = "reverse_codes_of ?d"
  note wf = set_node_chars_built(3) [OF t]
  have dist: "distinct (map fst ?d)"
    using set_node_chars_built(2) [OF t] by (simp only: map_fst_code_paths)
  have "s \<in> fst ` set ?d"
    using s set_node_chars_built(1) [OF t] map_fst_code_paths [of "Some t" "[]"] by (metis set_map)
  then obtain p where p: "(s, p) \<in> set ?d" by force
  with dist have mp: "map_of ?d s = Some p" by simp
  then have code: "code_of (Some ?d) s = p" by (rule code_of_Some)
  have "card (set (chars_of text)) = card (set text)"
    unfolding chars_of_def set_map by (rule card_image) (simp add: inj_on_def)
  also have "card (set (chars_of text)) = length (node_chars (Some t))"
    using set_node_chars_built(1,2) [OF t] by (metis distinct_card)
  finally have "2 \<le> length (node_chars (Some t))" using two by simp
  with wf p have ne: "p \<noteq> []" by (intro wf_tree_two_chars_paths_nonempty)
  have uniq: "b = s" if "(b, p) \<in> set ?d" for b
  proof (rule ccontr)
    assume "b \<noteq> s"
    with code_paths_prefix_free [OF wf that p] show False by simp
  qed
  from reverse_codes_not_None [OF p] obtain b where b: "map_of ?rc p = Some b" by blast
  from reverse_codes_SomeD [OF b] uniq have rc: "map_of ?rc p = Some s"
    using b by simp
  have "map_of ?rc (take n p) = None" if n: "0 < n \<and> n < length p" for n
  proof (rule ccontr)
    assume "map_of ?rc (take n p) \<noteq> None"
    then obtain b where "map_of ?rc (take n p) = Some b" by blast
    then have m: "(b, take n p) \<in> set ?d" by (rule reverse_codes_SomeD)
    have neq: "take n p \<noteq> p"
    proof
      assume "take n p = p"
      then have "length (take n p) = length p" by simp
      with n show False by simp
    qed
    have "b \<noteq> s"
    proof
      assume "b = s"
      with m dist mp have "take n p = p" by simp
      with neq show False by simp
    qed
    from code_paths_prefix_free [OF wf m p this] show False
      by (simp add: take_is_prefix)
  qed
  with ne rc code show ?thesis by simp
qed

section \<open>Merging the two least weights loses nothing\<close>

lemma wheight_subst_leaf [simp]: "wheight (subst_leaf a x t) = wheight t"
  by (induction t) auto

lemma wleaves_subst_leaf:
  "a \<in># wleaves t \<Longrightarrow> wleaves (subst_leaf a x t) = add_mset x (wleaves t - {#a#})"
  by (induction t) auto

lemma weight_subst_leaf:
  "a \<in># wleaves t \<Longrightarrow> weight (subst_leaf a x t) + a = weight t + x"
  by (induction t) auto

lemma wcost_subst_leaf:
  "a \<in># wleaves t \<Longrightarrow> wcost (subst_leaf a (a + d) t) \<le> wcost t + d * wheight t"
proof (induction t)
  case (WLeaf w)
  then show ?case by simp
next
  case (WNode l r)
  show ?case
  proof (cases "a \<in># wleaves l")
    case True
    from WNode.IH(1) [OF True] have "wcost (subst_leaf a (a + d) l) \<le> wcost l + d * wheight l" .
    moreover from weight_subst_leaf [OF True, of "a + d"]
    have "weight (subst_leaf a (a + d) l) = weight l + d" by simp
    moreover have "d * wheight l \<le> d * max (wheight l) (wheight r)"
      by (intro mult_le_mono2) simp
    ultimately have "wcost (subst_leaf a (a + d) l) \<le> wcost l + d * max (wheight l) (wheight r)"
      "weight (subst_leaf a (a + d) l) = weight l + d"
      by linarith+
    then show ?thesis using True by simp
  next
    case False
    with WNode.prems have r: "a \<in># wleaves r" by simp
    from WNode.IH(2) [OF r] have "wcost (subst_leaf a (a + d) r) \<le> wcost r + d * wheight r" .
    moreover from weight_subst_leaf [OF r, of "a + d"]
    have "weight (subst_leaf a (a + d) r) = weight r + d" by simp
    moreover have "d * wheight r \<le> d * max (wheight l) (wheight r)"
      by (intro mult_le_mono2) simp
    ultimately have "wcost (subst_leaf a (a + d) r) \<le> wcost r + d * max (wheight l) (wheight r)"
      "weight (subst_leaf a (a + d) r) = weight r + d"
      by linarith+
    then show ?thesis using False by simp
  qed
qed

lemma contract_combine:
  assumes "wleaves l = add_mset x (add_mset y R)" and "wleaves l' = add_mset c R"
    and "weight l' + x + y = weight l + c"
    and "wcost l' + (x + y) * wheight l = wcost l + c * (wheight l - 1)"
    and "wheight l' \<le> wheight l" and "0 < wheight l" and "wheight r \<le> wheight l"
  shows "weight l' + weight r + x + y = weight l + weight r + c"
    and "wcost l' + wcost r + weight l' + weight r + (x + y) * Suc (wheight l)
         = wcost l + wcost r + weight l + weight r + c * wheight l"
    and "max (wheight l') (wheight r) \<le> wheight l"
proof -
  from assms(3) show "weight l' + weight r + x + y = weight l + weight r + c" by simp
  from assms(6) have "c * wheight l = c * (wheight l - 1) + c"
    by (cases "wheight l") simp_all
  moreover have "(x + y) * Suc (wheight l) = (x + y) * wheight l + x + y" by simp
  ultimately show "wcost l' + wcost r + weight l' + weight r + (x + y) * Suc (wheight l)
         = wcost l + wcost r + weight l + weight r + c * wheight l"
    using assms(3,4) by linarith
  from assms(5,7) show "max (wheight l') (wheight r) \<le> wheight l" by simp
qed

lemma contract_props:
  "0 < wheight t \<Longrightarrow>
   \<exists>x y R. wleaves t = add_mset x (add_mset y R) \<and> wleaves (contract c t) = add_mset c R
     \<and> weight (contract c t) + x + y = weight t + c
     \<and> wcost (contract c t) + (x + y) * wheight t = wcost t + c * (wheight t - 1)
     \<and> wheight (contract c t) \<le> wheight t"
proof (induction t)
  case (WLeaf w)
  then show ?case by simp
next
  case (WNode l r)
  show ?case
  proof (cases "wheight l = 0 \<and> wheight r = 0")
    case True
    then obtain x y where "l = WLeaf x" "r = WLeaf y"
      by (cases l; cases r) auto
    then show ?thesis
      by (intro exI [of _ x] exI [of _ y] exI [of _ "{#}"]) simp
  next
    case False
    show ?thesis
    proof (cases "wheight r \<le> wheight l")
      case True
      with False have hl: "0 < wheight l" by linarith
      then have c: "contract c (WNode l r) = WNode (contract c l) r"
        using True by (cases l; cases r) auto
      from WNode.IH(1) [OF hl] obtain x y R where
        *: "wleaves l = add_mset x (add_mset y R)" "wleaves (contract c l) = add_mset c R"
           "weight (contract c l) + x + y = weight l + c"
           "wcost (contract c l) + (x + y) * wheight l = wcost l + c * (wheight l - 1)"
           "wheight (contract c l) \<le> wheight l"
        by blast
      from True have m: "max (wheight l) (wheight r) = wheight l" by simp
      from contract_combine [OF * hl True] * show ?thesis
        by (intro exI [of _ x] exI [of _ y] exI [of _ "R + wleaves r"])
           (simp add: c m del: contract.simps)
    next
      case F: False
      then have hr: "0 < wheight r" and le: "wheight l \<le> wheight r" by simp_all
      then have c: "contract c (WNode l r) = WNode l (contract c r)"
        using F by (cases l; cases r) auto
      from WNode.IH(2) [OF hr] obtain x y R where
        *: "wleaves r = add_mset x (add_mset y R)" "wleaves (contract c r) = add_mset c R"
           "weight (contract c r) + x + y = weight r + c"
           "wcost (contract c r) + (x + y) * wheight r = wcost r + c * (wheight r - 1)"
           "wheight (contract c r) \<le> wheight r"
        by blast
      from le have m: "max (wheight l) (wheight r) = wheight r" by simp
      from contract_combine [OF * hr le] * show ?thesis
        by (intro exI [of _ x] exI [of _ y] exI [of _ "wleaves l + R"])
           (simp add: c m max.commute add.commute add.left_commute del: contract.simps)
    qed
  qed
qed

text \<open>
  The exchange argument: from a tree over weights that include the two least, \<open>a\<close> and
  \<open>b\<close>, a tree over the same weights with \<open>a + b\<close> in place of the two is obtained,
  cheaper by at least \<open>a + b\<close>.
\<close>

lemma replace_leaf:
  assumes "wleaves S1 = add_mset c R" and "add_mset x R = add_mset a M'" and "a \<le> x"
    and "wheight S1 \<le> h"
  shows "\<exists>S2. wleaves S2 = add_mset c M' \<and> wheight S2 \<le> h \<and> wcost S2 + a * h \<le> wcost S1 + x * h"
proof (cases "x = a")
  case True
  with assms(2) have "R = M'" by simp
  with assms(1,4) True show ?thesis
    by (intro exI [of _ S1]) simp
next
  case False
  from assms(2) have "a \<in># add_mset x R" by simp
  with False have aR: "a \<in># R" by simp
  from assms(2) have "M' = add_mset x R - {#a#}"
    by (metis add_mset_remove_trivial)
  with aR have M': "M' = add_mset x (R - {#a#})" by simp
  define d where "d = x - a"
  with assms(3) have x: "x = a + d" by simp
  let ?S2 = "subst_leaf a x S1"
  from aR assms(1) have al: "a \<in># wleaves S1" by simp
  then have "wleaves ?S2 = add_mset x (wleaves S1 - {#a#})"
    by (rule wleaves_subst_leaf)
  with assms(1) aR M' have 1: "wleaves ?S2 = add_mset c M'" by simp
  from wcost_subst_leaf [OF al, of d] x have "wcost ?S2 \<le> wcost S1 + d * wheight S1" by simp
  moreover from assms(4) have "d * wheight S1 \<le> d * h" by (rule mult_le_mono2)
  moreover have "x * h = a * h + d * h" by (simp add: x add_mult_distrib)
  ultimately have 2: "wcost ?S2 + a * h \<le> wcost S1 + x * h" by linarith
  from 1 2 assms(4) show ?thesis
    by (intro exI [of _ ?S2]) simp
qed

lemma exchange_core:
  assumes S1: "wleaves S1 = add_mset (a + b) R" "wheight S1 \<le> h" "0 < h"
    and cost: "wcost S1 + (x + y) * h = wcost S + (a + b) * (h - 1)"
    and eq: "add_mset x (add_mset y R) = add_mset a (add_mset b M)"
    and min: "\<forall>z\<in>#M. b \<le> z" "a \<le> b"
    and a: "a \<in># add_mset x R"
  shows "\<exists>S'. wleaves S' = add_mset (a + b) M \<and> wcost S' + a + b \<le> wcost S"
proof -
  define M1 where "M1 = add_mset x R - {#a#}"
  from a have e1: "add_mset x R = add_mset a M1"
    by (simp add: M1_def)
  have "x \<in># add_mset a (add_mset b M)"
    using eq by (metis union_single_eq_member)
  with min have ax: "a \<le> x" by auto
  from replace_leaf [OF S1(1) e1 ax S1(2)] obtain S2 where
    S2: "wleaves S2 = add_mset (a + b) M1" "wheight S2 \<le> h" "wcost S2 + a * h \<le> wcost S1 + x * h"
    by blast
  have "add_mset y M1 = add_mset y (add_mset x R) - {#a#}"
    using a by (simp add: M1_def)
  also have "\<dots> = add_mset a (add_mset b M) - {#a#}"
    using eq by (simp add: add_mset_commute)
  finally have e2: "add_mset y M1 = add_mset b M" by simp
  then have "y \<in># add_mset b M"
    by (metis union_single_eq_member)
  with min have "b \<le> y" by auto
  from replace_leaf [OF S2(1) e2 this S2(2)] obtain S3 where
    S3: "wleaves S3 = add_mset (a + b) M" "wheight S3 \<le> h" "wcost S3 + b * h \<le> wcost S2 + y * h"
    by blast
  have "(x + y) * h = x * h + y * h" by (rule add_mult_distrib)
  moreover from S1(3) have "a * h + b * h = (a + b) * (h - 1) + a + b"
    by (cases h) (simp_all add: add_mult_distrib)
  ultimately have "wcost S3 + a + b \<le> wcost S"
    using cost S2(3) S3(3) by linarith
  with S3(1) show ?thesis by blast
qed

lemma exchange:
  assumes "wleaves S = add_mset a (add_mset b M)" and "\<forall>z\<in>#M. b \<le> z" and "a \<le> b"
  shows "\<exists>S'. wleaves S' = add_mset (a + b) M \<and> wcost S' + a + b \<le> wcost S"
proof -
  have "0 < wheight S"
  proof (cases S)
    case (WLeaf w)
    with assms(1) show ?thesis by simp
  next
    case (WNode l r)
    then show ?thesis by simp
  qed
  from contract_props [OF this, of "a + b"] obtain x y R where
    *: "wleaves S = add_mset x (add_mset y R)" "wleaves (contract (a + b) S) = add_mset (a + b) R"
       "wcost (contract (a + b) S) + (x + y) * wheight S = wcost S + (a + b) * (wheight S - 1)"
       "wheight (contract (a + b) S) \<le> wheight S"
    by blast
  from *(1) assms(1) have eq: "add_mset x (add_mset y R) = add_mset a (add_mset b M)" by simp
  then have "a \<in># add_mset x (add_mset y R)" by simp
  then consider "a \<in># add_mset x R" | "a \<in># add_mset y R" by auto
  then show ?thesis
  proof cases
    case 1
    from *(2,4) \<open>0 < wheight S\<close> *(3) eq assms(2,3) 1 show ?thesis
      by (rule exchange_core)
  next
    case 2
    from eq have eq': "add_mset y (add_mset x R) = add_mset a (add_mset b M)"
      by (simp add: add_mset_commute)
    from *(3) have "wcost (contract (a + b) S) + (y + x) * wheight S = wcost S + (a + b) * (wheight S - 1)"
      by (simp add: add.commute)
    from *(2,4) \<open>0 < wheight S\<close> this eq' assms(2,3) 2 show ?thesis
      by (rule exchange_core)
  qed
qed

section \<open>The merge loop builds a tree of least cost\<close>

text \<open>
  Every pass of the loop pops the two nodes of least frequency. By the exchange
  argument, the cost of the tree the loop ends with is at most the cost of the trees in
  the heap plus the cost of any tree over the heap's frequencies.
\<close>

lemma node_cost_merged:
  "node_cost (Some (Node None (freq a + freq b) (Some a) (Some b))) =
     node_cost (Some a) + node_cost (Some b) + freq a + freq b"
  by (simp add: freq_of_def)

lemma huffman_loop_optimal:
  assumes "heap_from 0 heap" and "heap \<noteq> []"
  shows "\<exists>t. huffman_loop heap = Inr [t] \<and>
     (\<forall>S. wleaves S = image_mset freq (mset heap) \<longrightarrow>
        node_cost (Some t) \<le> (\<Sum>u\<in>#mset heap. node_cost (Some u)) + wcost S)"
  using assms
proof (induction heap rule: huffman_loop.induct)
  case (1 heap)
  show ?case
  proof (cases "length heap > 1")
    case True
    from heap_heappop [OF "1.prems"] obtain node1 heap1 where
      p1: "heappop heap = Inr (node1, heap1)" "mset heap = add_mset node1 (mset heap1)"
        "heap_from 0 heap1" "\<forall>y\<in>#mset heap1. freq node1 \<le> freq y"
      by blast
    from length_heappop [OF p1(1)] True have ne1: "heap1 \<noteq> []" by auto
    from heap_heappop [OF p1(3) ne1] obtain node2 heap2 where
      p2: "heappop heap1 = Inr (node2, heap2)" "mset heap1 = add_mset node2 (mset heap2)"
        "heap_from 0 heap2" "\<forall>y\<in>#mset heap2. freq node2 \<le> freq y"
      by blast
    let ?merged = "Node None (freq node1 + freq node2) (Some node1) (Some node2)"
    let ?heap3 = "heappush heap2 ?merged"
    have h3: "heap_from 0 ?heap3" using p2(3) by (rule heap_heappush)
    have ne3: "?heap3 \<noteq> []"
      using length_heappush [of heap2 ?merged] by (metis length_0_conv nat.distinct(1))
    from "1.IH" [OF True p1(1) refl p2(1) refl refl h3 ne3] obtain t where
      t: "huffman_loop ?heap3 = Inr [t]"
        "\<forall>S. wleaves S = image_mset freq (mset ?heap3) \<longrightarrow>
          node_cost (Some t) \<le> (\<Sum>u\<in>#mset ?heap3. node_cost (Some u)) + wcost S"
      by blast
    have loop: "huffman_loop heap = huffman_loop ?heap3"
      using True p1(1) p2(1) by (subst huffman_loop.simps) (simp add: Let_def)
    have "node_cost (Some t) \<le> (\<Sum>u\<in>#mset heap. node_cost (Some u)) + wcost S"
      if S: "wleaves S = image_mset freq (mset heap)" for S
    proof -
      let ?M = "image_mset freq (mset heap2)"
      from S p1(2) p2(2) have "wleaves S = add_mset (freq node1) (add_mset (freq node2) ?M)"
        by simp
      moreover from p2(4) have "\<forall>z\<in>#?M. freq node2 \<le> z" by auto
      moreover from p1(4) p2(2) have "freq node1 \<le> freq node2" by simp
      ultimately obtain S' where
        S': "wleaves S' = add_mset (freq node1 + freq node2) ?M"
          "wcost S' + freq node1 + freq node2 \<le> wcost S"
        using exchange by blast
      from S'(1) have "wleaves S' = image_mset freq (mset ?heap3)"
        by (simp add: mset_heappush)
      with t(2) have "node_cost (Some t) \<le> (\<Sum>u\<in>#mset ?heap3. node_cost (Some u)) + wcost S'"
        by blast
      also have "(\<Sum>u\<in>#mset ?heap3. node_cost (Some u)) =
          (\<Sum>u\<in>#mset heap. node_cost (Some u)) + freq node1 + freq node2"
        by (simp add: mset_heappush p1(2) p2(2) node_cost_merged del: node_cost.simps)
      finally show ?thesis using S'(2) by linarith
    qed
    with t(1) loop show ?thesis by simp
  next
    case False
    with "1.prems"(2) obtain t where t: "heap = [t]"
      by (cases heap) auto
    then have "huffman_loop heap = Inr [t]"
      by (subst huffman_loop.simps) simp
    with t show ?thesis by simp
  qed
qed

text \<open>
  Code lengths and costs: the paths of a tree weigh what \<open>node_cost\<close> counts, and the
  weighted length of a table with one entry per symbol is the sum over its entries.
\<close>

lemma wf_tree_code_tree: "wf_tree w n \<Longrightarrow> code_tree n"
  by (induction n rule: node_chars.induct) (auto split: option.splits)

lemma wf_tree_paths_cost:
  "wf_tree w n \<Longrightarrow>
   sum_list (map (\<lambda>(c, p). w c * length p) (code_paths n cur)) = node_cost n + freq_of n * length cur"
proof (induction n cur rule: code_paths.induct)
  case (1 cur)
  show ?case by (simp add: freq_of_def)
next
  case (2 ch f l r cur)
  show ?case
  proof (cases ch)
    case (Some c)
    with "2.prems" show ?thesis by (simp add: freq_of_def)
  next
    case None
    with "2.prems" have wf: "wf_tree w l" "wf_tree w r" and ne: "l \<noteq> None" "r \<noteq> None"
      and f: "f = freq_of l + freq_of r"
      by auto
    from "2.IH" wf have
      "sum_list (map (\<lambda>(c, p). w c * length p) (code_paths l (cur @ ''0''))) = node_cost l + freq_of l * length (cur @ ''0'')"
      "sum_list (map (\<lambda>(c, p). w c * length p) (code_paths r (cur @ ''1''))) = node_cost r + freq_of r * length (cur @ ''1'')"
      by blast+
    with None ne f show ?thesis
      by (simp add: freq_of_def add_mult_distrib)
  qed
qed

lemma code_tree_paths_cost:
  "code_tree n \<Longrightarrow> n \<noteq> None \<Longrightarrow>
   wleaves (wshape w n) = image_mset w (mset (node_chars n)) \<and>
   sum_list (map (\<lambda>(c, p). w c * length p) (code_paths n cur))
     = wcost (wshape w n) + weight (wshape w n) * length cur"
proof (induction n cur rule: code_paths.induct)
  case (1 cur)
  then show ?case by simp
next
  case (2 ch f l r cur)
  show ?case
  proof (cases ch)
    case (Some c)
    with "2.prems" show ?thesis by simp
  next
    case None
    with "2.prems" have ct: "code_tree l" "code_tree r" and ne: "l \<noteq> None" "r \<noteq> None"
      by auto
    from "2.IH" ct ne have
      "wleaves (wshape w l) = image_mset w (mset (node_chars l))"
      "sum_list (map (\<lambda>(c, p). w c * length p) (code_paths l (cur @ ''0'')))
         = wcost (wshape w l) + weight (wshape w l) * length (cur @ ''0'')"
      "wleaves (wshape w r) = image_mset w (mset (node_chars r))"
      "sum_list (map (\<lambda>(c, p). w c * length p) (code_paths r (cur @ ''1'')))
         = wcost (wshape w r) + weight (wshape w r) * length (cur @ ''1'')"
      by blast+
    with None ne show ?thesis
      by (simp add: add_mult_distrib)
  qed
qed

lemma sum_list_alist:
  "distinct (map fst xs) \<Longrightarrow>
   sum_list (map (\<lambda>(k, v). F k v) xs) = (\<Sum>k\<in>set (map fst xs). F k (the (map_of xs k)))"
proof (induction xs)
  case Nil
  show ?case by simp
next
  case (Cons kv xs)
  obtain k v where kv: "kv = (k, v)" by (cases kv)
  with Cons.prems have k: "k \<notin> set (map fst xs)" and d: "distinct (map fst xs)" by auto
  have "(\<Sum>k'\<in>set (map fst xs). F k' (the (map_of (kv # xs) k')))
      = (\<Sum>k'\<in>set (map fst xs). F k' (the (map_of xs k')))"
    using k by (intro sum.cong) (auto simp: kv)
  with Cons.IH [OF d] k show ?case
    by (simp add: kv)
qed

lemma weighted_length_paths:
  assumes "distinct (map fst d)" and "set (map fst d) = set (chars_of text)"
  shows "weighted_length text d = sum_list (map (\<lambda>(c, p). count_list (chars_of text) c * length p) d)"
proof -
  let ?C = "Counter (chars_of text)"
  let ?K = "set (chars_of text)"
  have "weighted_length text d = (\<Sum>k\<in>set (map fst ?C). the (map_of ?C k) * length (dict_get d k []))"
    unfolding weighted_length_def by (rule sum_list_alist) (rule distinct_Counter)
  also have "\<dots> = (\<Sum>k\<in>?K. count_list (chars_of text) k * length (the (map_of d k)))"
  proof (rule sum.cong)
    show "set (map fst ?C) = ?K" by (rule set_Counter)
  next
    fix k assume "k \<in> ?K"
    then have "the (map_of ?C k) = count_list (chars_of text) k"
      by (simp add: map_of_Counter)
    moreover from \<open>k \<in> ?K\<close> assms(2) have "map_of d k \<noteq> None"
      by (metis map_of_eq_None_iff set_map)
    then have "dict_get d k [] = the (map_of d k)"
      by (auto simp: dict_get_def)
    ultimately show "the (map_of ?C k) * length (dict_get d k []) =
        count_list (chars_of text) k * length (the (map_of d k))"
      by simp
  qed
  also have "\<dots> = (\<Sum>k\<in>set (map fst d). count_list (chars_of text) k * length (the (map_of d k)))"
    by (simp only: assms(2))
  also have "\<dots> = sum_list (map (\<lambda>(c, p). count_list (chars_of text) c * length p) d)"
    by (rule sum_list_alist [OF assms(1), symmetric])
  finally show ?thesis .
qed

lemma leaf_heap_freqs:
  "image_mset freq (mset (map (\<lambda>(char, freq). Node (Some char) freq None None) fm))
     = image_mset snd (mset fm)"
  by (induction fm) auto

lemma leaf_heap_cost:
  "(\<Sum>u\<in>#mset (map (\<lambda>(char, freq). Node (Some char) freq None None) fm). node_cost (Some u)) = 0"
  by (induction fm) auto

lemma Counter_weights:
  "image_mset snd (mset (Counter elems)) = image_mset (count_list elems) (mset (map fst (Counter elems)))"
proof -
  have "image_mset snd (mset (Counter elems)) =
      image_mset (\<lambda>e. count_list elems (fst e)) (mset (Counter elems))"
    by (rule image_mset_cong) (auto dest: Counter_entry)
  also have "\<dots> = image_mset (count_list elems) (mset (map fst (Counter elems)))"
    by (simp add: multiset.map_comp comp_def)
  finally show ?thesis .
qed

lemma build_huffman_tree_cost:
  assumes "build_huffman_tree text = Inr (Some t)"
    and "wleaves S = image_mset (count_list (chars_of text)) (mset (map fst (Counter (chars_of text))))"
  shows "node_cost (Some t) \<le> wcost S"
proof -
  let ?fm = "Counter (chars_of text)"
  let ?leaves = "map (\<lambda>(char, freq). Node (Some char) freq None None) ?fm"
  let ?heap = "heapify ?leaves"
  from assms(1) have "text \<noteq> []"
    by (auto simp: build_huffman_tree_empty)
  then have "?fm \<noteq> []"
    by (simp add: Counter_empty_iff chars_of_def)
  then have "length ?heap \<noteq> 0" by simp
  then have ne: "?heap \<noteq> []" by (simp only: length_0_conv not_False_eq_True)
  from huffman_loop_optimal [OF heap_heapify ne] obtain t' where
    t': "huffman_loop ?heap = Inr [t']"
      "\<forall>S. wleaves S = image_mset freq (mset ?heap) \<longrightarrow>
          node_cost (Some t') \<le> (\<Sum>u\<in>#mset ?heap. node_cost (Some u)) + wcost S"
    by blast
  from t'(1) assms(1) have "t' = t"
    by (simp add: build_huffman_tree_def)
  moreover have "image_mset freq (mset ?heap) = wleaves S"
    by (simp only: mset_heapify leaf_heap_freqs Counter_weights assms(2))
  moreover have "(\<Sum>u\<in>#mset ?heap. node_cost (Some u)) = 0"
    by (simp only: mset_heapify leaf_heap_cost)
  ultimately show ?thesis
    using t'(2) by (metis add_0)
qed

section \<open>Claims about the decoder's errors\<close>

text \<open>
  Claim C8 says that decoding fails with a CorruptTableError when two symbols of the
  table have the same bitstring. The code has no such check: at the table
  \<open>{"a": "0", "b": "0"}\<close> and the byte 0 it returns eight times the symbol b.
\<close>

theorem duplicate_codes_counterexample:
  "decompress_file [0] (Some [(''a'', ''0''), (''b'', ''0'')]) = Inr ''bbbbbbbb''"
  by code_simp

text \<open>
  Claim C8, amended: decoding does not fail on a table with duplicate bitstrings. It
  returns a text for every table, and the reverse map gives a bitstring the symbol of its
  last entry in the table's order.
\<close>

theorem duplicate_codes_last_wins:
  assumes "codes = pre @ (k, code) # post" and "code \<notin> snd ` set post"
  shows "map_of (reverse_codes_of codes) code = Some k \<and>
    (\<exists>text. decompress_file byte_data (Some codes) = Inr text)"
  using reverse_codes_last [OF assms] decompress_file_total by blast

theorem duplicate_codes_last_wins_witness:
  "map_of (reverse_codes_of [(''a'', ''0''), (''b'', ''0'')]) ''0'' = Some ''b'' \<and>
   (\<exists>text. decompress_file [0] (Some [(''a'', ''0''), (''b'', ''0'')]) = Inr text)"
proof -
  have h1: "[(''a'', ''0''), (''b'', ''0'')] = [(''a'', ''0'')] @ (''b'', ''0'') # []"
    by simp
  have h2: "''0'' \<notin> snd ` set ([] :: (string \<times> string) list)"
    by simp
  show ?thesis
    using duplicate_codes_last_wins [OF h1 h2, of "[0]"] by simp
qed

text \<open>
  Claim C9 says that decoding fails with a DecodingError when the scan ends with a
  non-empty accumulator that matched no entry. The code raises nothing: at the table
  \<open>{"a": "1"}\<close> and the byte 128 the scan ends with the seven bits 0000000 in the
  accumulator, and the text a is returned.
\<close>

theorem unmatched_tail_counterexample:
  "decode_loop (reverse_codes_of [(''a'', ''1'')]) (bit_string_of [128]) [] [] = (''0000000'', [''a''])
   \<and> decompress_file [128] (Some [(''a'', ''1'')]) = Inr ''a''"
  by code_simp

text \<open>
  Claim C9, amended: when the scan ends with a non-empty accumulator, decoding does not
  fail; the accumulated bits are dropped. The text returned is the one decoded from the
  bit string without these trailing bits, none of whose non-empty prefixes is a code of
  the reverse map.
\<close>

theorem unmatched_tail_is_dropped:
  assumes "decode_loop (reverse_codes_of codes) (bit_string_of byte_data) [] [] = (current, decoded_text)"
    and "current \<noteq> []"
  shows "decompress_file byte_data (Some codes) = Inr (concat decoded_text) \<and>
    (\<exists>consumed. bit_string_of byte_data = consumed @ current \<and>
        decode_loop (reverse_codes_of codes) consumed [] [] = ([], decoded_text)) \<and>
    (\<forall>n. 0 < n \<and> n \<le> length current \<longrightarrow> map_of (reverse_codes_of codes) (take n current) = None)"
proof -
  from decode_loop_split [OF assms(1)] obtain consumed rest cur'' where
    *: "bit_string_of byte_data = consumed @ rest"
       "decode_loop (reverse_codes_of codes) consumed [] [] = (cur'', decoded_text)"
       "current = cur'' @ rest"
       "\<forall>n. 0 < n \<and> n \<le> length rest \<longrightarrow> map_of (reverse_codes_of codes) (cur'' @ take n rest) = None"
       "consumed = [] \<or> cur'' = []"
    by blast
  from *(2,5) have c: "cur'' = []" by auto
  have "decompress_file byte_data (Some codes) = Inr (concat decoded_text)"
    using assms(1) by (simp add: decompress_file_def)
  with * c show ?thesis by auto
qed

theorem unmatched_tail_is_dropped_witness:
  "decompress_file [128] (Some [(''a'', ''1'')]) = Inr (concat [''a'']) \<and>
   (\<exists>consumed. bit_string_of [128] = consumed @ ''0000000'' \<and>
        decode_loop (reverse_codes_of [(''a'', ''1'')]) consumed [] [] = ([], [''a''])) \<and>
   map_of (reverse_codes_of [(''a'', ''1'')]) (take 7 ''0000000'') = None"
proof -
  have h1: "decode_loop (reverse_codes_of [(''a'', ''1'')]) (bit_string_of [128]) [] []
      = (''0000000'', [''a''])"
    by code_simp
  have h2: "''0000000'' \<noteq> []"
    by simp
  have h3: "0 < (7::nat) \<and> 7 \<le> length ''0000000''"
    by simp
  from unmatched_tail_is_dropped [OF h1 h2] h3 show ?thesis
    by blast
qed

section \<open>Claims about the tree\<close>

text \<open>
  Claim C10: for a frequency map with \<open>n \<ge> 1\<close> entries the builder returns a tree; it
  is strict binary, has \<open>n\<close> leaves and \<open>n - 1\<close> internal nodes, and the frequency of
  every internal node is the sum of its children's. The text is a list over any type of
  code points, so \<open>n\<close> is not bounded.
\<close>

theorem tree_is_strict_binary:
  assumes "1 \<le> length (Counter (chars_of text))"
  shows "\<exists>t. build_huffman_tree text = Inr (Some t)
     \<and> strict_binary (Some t)
     \<and> num_leaves (Some t) = length (Counter (chars_of text))
     \<and> num_internal (Some t) = length (Counter (chars_of text)) - 1
     \<and> freq_sums (Some t)"
proof -
  from assms have "text \<noteq> []"
    by (auto simp: chars_of_def Counter_def)
  from build_huffman_tree_Some [OF this] obtain t where
    t: "build_huffman_tree text = Inr (Some t)"
       "wf_tree (count_list (chars_of text)) (Some t)"
       "mset (node_chars (Some t)) = mset (map fst (Counter (chars_of text)))"
    by blast
  from mset_eq_length [OF t(3)]
  have "length (node_chars (Some t)) = length (Counter (chars_of text))"
    by simp
  with t(2) have n: "num_leaves (Some t) = length (Counter (chars_of text))"
    by (simp add: wf_tree_num_leaves)
  moreover from t(2) have "Suc (num_internal (Some t)) = num_leaves (Some t)"
    by (rule wf_tree_num_internal) simp
  with n have "num_internal (Some t) = length (Counter (chars_of text)) - 1"
    by simp
  ultimately show ?thesis
    using t(1,2) wf_tree_strict wf_tree_freq_sums by blast
qed

theorem tree_is_strict_binary_witness:
  "\<exists>t. build_huffman_tree ''abracadabra'' = Inr (Some t)
     \<and> strict_binary (Some t) \<and> num_leaves (Some t) = 5 \<and> num_internal (Some t) = 4
     \<and> freq_sums (Some t)"
proof -
  have h: "length (Counter (chars_of ''abracadabra'')) = 5"
    by code_simp
  then have "1 \<le> length (Counter (chars_of ''abracadabra''))"
    by simp
  from tree_is_strict_binary [OF this] show ?thesis
    by (simp add: h)
qed

section \<open>Claims about the code table and the packed bytes\<close>






section \<open>The round trip\<close>




section \<open>Optimality\<close>



section \<open>Inputs on which the code departs from the claims\<close>

text \<open>
  Claim C2 (a text of one repeated symbol gets a one-bit code and decodes back). The
  tree of such a text is a single leaf, whose path from the root is empty: the symbol's
  code is the empty string, no byte is written, and decoding returns the empty text.
\<close>

theorem single_symbol_text_is_lost:
  "compress_file [] ''aaaa'' = (Inr ([], Some [(''a'', '''')]), [(''a'', '''')]) \<and>
   decompress_file [] (Some [(''a'', '''')]) = Inr ''''"
  by code_simp

text \<open>
  Claim C3 (the empty text compresses to no bytes and an empty table, and decodes back).
  No byte is written, but \<open>build_codes(None)\<close> returns \<open>None\<close>, which is what is dumped as
  the table; decompression of this package raises AttributeError.
\<close>

theorem empty_text_table_is_None:
  "compress_file [] ('''' :: string) = (Inr ([], None), []) \<and>
   decompress_file [] (None :: (string, string) dict option) = Inl AttributeError"
  by code_simp

text \<open>
  Claim C7 (compression does not depend on earlier calls). The dict behind the default
  argument of \<open>build_codes\<close> keeps the entries of earlier calls: after compressing the
  text a, compressing the text b writes a table with both symbols.
\<close>

theorem earlier_call_changes_table:
  "fst (compress_file [] ''b'') = Inr ([], Some [(''b'', '''')]) \<and>
   fst (compress_file (snd (compress_file [] ''a'')) ''b'') =
     Inr ([], Some [(''a'', ''''), (''b'', '''')])"
  by code_simp

end
